theory Spec2Isabelle
  imports Main "HOL-Library.Word"
begin

section \<open>The rendezvous barrier of ion/port/barrier.cc\<close>

text \<open>
  The source holds three implementations of \<^verbatim>\<open>Barrier\<close>, one per platform:
  a double turnstile on two counting semaphores (Windows, lines 63-108), a wrapper of the
  native \<^verbatim>\<open>pthread_barrier_t\<close> (Linux and QNX, lines 117-136) and a mutex with two
  condition variables (everything else, lines 148-195).

  Each implementation is embedded as a transition system. A state holds the fields of the
  \<^verbatim>\<open>Barrier\<close> object, the host objects it owns, one program location per
  thread of the process (a list, indexed by the thread's number) and the program location
  of the owner running the destructor. One event is one atomic action of one thread: a
  statement of the source on shared data, or the moment a blocking host call lets the
  thread through. A schedule is a list of events; \<open>run\<close> applies it and yields
  \<open>None\<close> as soon as an event is not enabled in the state it meets.

  Modelled from the spec: the class declaration (barrier.h) is missing from the sources,
  and with it the types of the fields and the body of \<^verbatim>\<open>IsValid()\<close>. The spec gives
  the participant count as an unsigned integer, fixed at creation; the fields are taken at
  the type of the constructor's argument, \<^verbatim>\<open>uint32\<close>, as 32-bit words. The equality
  tests, increments and decrements of the source are the same on the signed and on the
  unsigned reading of 32 bits. The counters that the source updates outside any lock
  (\<^verbatim>\<open>wait_count_\<close> of the semaphore version, \<^verbatim>\<open>waiting_count_\<close> of the native
  version) are taken to be atomic.
\<close>

type_synonym uint32 = "32 word"

text \<open>Who can hold the mutex: a thread, by its number, or the owner in the destructor.\<close>

datatype owner = Thr nat | Dtor

text \<open>Observations kept beside the program state: how many times each thread has
  called \<^verbatim>\<open>Wait()\<close>, how many of these calls have returned, and how many times
  the arrival counter has reached the thread count.\<close>

record observer =
  called :: "nat list"
  returned :: "nat list"
  rounds :: nat

definition note_call :: "nat \<Rightarrow> 'a observer_scheme \<Rightarrow> 'a observer_scheme" where
  "note_call t s = s\<lparr>called := (called s)[t := Suc (called s ! t)]\<rparr>"

definition note_return :: "nat \<Rightarrow> 'a observer_scheme \<Rightarrow> 'a observer_scheme" where
  "note_return t s = s\<lparr>returned := (returned s)[t := Suc (returned s ! t)]\<rparr>"

definition note_round :: "'a observer_scheme \<Rightarrow> 'a observer_scheme" where
  "note_round s = s\<lparr>rounds := Suc (rounds s)\<rparr>"

section \<open>Mutex and condition variables (lines 148-195)\<close>

subsection \<open>Program locations\<close>

text \<open>
  Where a thread stands in \<^verbatim>\<open>Wait()\<close> (lines 174-195):
  \<^item> \<open>Idle\<close>: outside \<^verbatim>\<open>Wait()\<close>;
  \<^item> \<open>AtLock\<close>: past the validity test, in \<^verbatim>\<open>pthread_mutex_lock\<close> (line 176);
  \<^item> \<open>Arriving\<close>: owns the mutex, before line 178;
  \<^item> \<open>Blocked\<close>: in \<^verbatim>\<open>pthread_cond_wait(&condition_, &mutex_)\<close> (line 184), mutex
    released, waiting for the condition;
  \<^item> \<open>Woken\<close>: still in \<^verbatim>\<open>pthread_cond_wait\<close>, woken, waiting to own the mutex again;
  \<^item> \<open>Exiting\<close>: owns the mutex, before line 191.

  Where the owner stands in the destructor (lines 160-172):
  \<^item> \<open>DNotStarted\<close>: the destructor has not been called;
  \<^item> \<open>DLocked\<close>: owns the mutex, before line 163;
  \<^item> \<open>DBlocked\<close>: in \<^verbatim>\<open>pthread_cond_wait(&exit_condition_, &mutex_)\<close> (line 165),
    waiting for the condition;
  \<^item> \<open>DWoken\<close>: woken there, waiting to own the mutex again;
  \<^item> \<open>DUnlocking\<close>: owns the mutex, before line 167;
  \<^item> \<open>DDestroying\<close>: before the three destroy calls (lines 168-170);
  \<^item> \<open>DDone\<close>: the host objects are destroyed.
\<close>

datatype cv_pc = Idle | AtLock | Arriving | Blocked | Woken | Exiting

datatype cv_dpc = DNotStarted | DLocked | DBlocked | DWoken | DUnlocking | DDestroying | DDone

record cv_state = observer +
  thread_count :: uint32
  wait_count :: uint32
  exit_count :: uint32
  is_valid :: bool
  mutex :: "owner option"
  pcs :: "cv_pc list"
  dpc :: cv_dpc
  destroyed :: bool

subsection \<open>Host primitives\<close>

text \<open>
  \<^verbatim>\<open>pthread_cond_broadcast\<close> unblocks every thread blocked on the condition variable;
  each of them still has to take the mutex before \<^verbatim>\<open>pthread_cond_wait\<close> returns.
  POSIX also lets \<^verbatim>\<open>pthread_cond_wait\<close> return with no broadcast at all (a spurious
  wakeup); that is the events \<open>Spurious\<close> and \<open>DSpurious\<close> below.
\<close>

definition pthread_cond_broadcast :: "cv_pc list \<Rightarrow> cv_pc list" where
  "pthread_cond_broadcast ps = map (\<lambda>p. if p = Blocked then Woken else p) ps"

definition pthread_cond_broadcast_exit :: "cv_dpc \<Rightarrow> cv_dpc" where
  "pthread_cond_broadcast_exit d = (if d = DBlocked then DWoken else d)"

subsection \<open>Constructor (lines 148-158)\<close>

text \<open>The state right after the constructor has returned, in a process of \<open>k\<close> threads.\<close>

definition Barrier_cv :: "uint32 \<Rightarrow> nat \<Rightarrow> cv_state" where
  "Barrier_cv n k =
     \<lparr>called = replicate k 0, returned = replicate k 0, rounds = 0,
      thread_count = n, wait_count = 0, exit_count = 1, is_valid = (0 < n),
      mutex = None, pcs = replicate k Idle, dpc = DNotStarted, destroyed = False\<rparr>"

text \<open>Modelled from the spec: \<^verbatim>\<open>IsValid()\<close> is defined in the missing class
  declaration; the spec has it as a pure query of validity, so it returns the field
  \<^verbatim>\<open>is_valid_\<close> that the constructor has set.\<close>

definition IsValid_cv :: "cv_state \<Rightarrow> bool" where
  "IsValid_cv s = is_valid s"

subsection \<open>\<^verbatim>\<open>Wait()\<close> (lines 174-195)\<close>

text \<open>Line 175: an invalid barrier returns at once.\<close>

definition Wait_cv_call :: "nat \<Rightarrow> cv_state \<Rightarrow> cv_state option" where
  "Wait_cv_call t s =
     (if pcs s ! t \<noteq> Idle then None
      else if IsValid_cv s then Some (note_call t (s\<lparr>pcs := (pcs s)[t := AtLock]\<rparr>))
      else Some (note_return t (note_call t s)))"

text \<open>Line 176: \<^verbatim>\<open>pthread_mutex_lock\<close> returns once the mutex is free.\<close>

definition Wait_cv_lock :: "nat \<Rightarrow> cv_state \<Rightarrow> cv_state option" where
  "Wait_cv_lock t s =
     (if pcs s ! t = AtLock \<and> mutex s = None
      then Some (s\<lparr>mutex := Some (Thr t), pcs := (pcs s)[t := Arriving]\<rparr>)
      else None)"

text \<open>Lines 178-186: count the arrival; the last thread resets the counter, sets
  the exit count and broadcasts; any other thread releases the mutex and blocks.\<close>

definition Wait_cv_arrive :: "nat \<Rightarrow> cv_state \<Rightarrow> cv_state option" where
  "Wait_cv_arrive t s =
     (if pcs s ! t \<noteq> Arriving then None
      else if wait_count s + 1 = thread_count s
      then Some (note_round (s\<lparr>wait_count := 0, exit_count := thread_count s + 1,
                   pcs := pthread_cond_broadcast ((pcs s)[t := Exiting])\<rparr>))
      else Some (s\<lparr>wait_count := wait_count s + 1, mutex := None,
                   pcs := (pcs s)[t := Blocked]\<rparr>))"

text \<open>Line 184, second half: a woken thread takes the mutex again.\<close>

definition Wait_cv_reacquire :: "nat \<Rightarrow> cv_state \<Rightarrow> cv_state option" where
  "Wait_cv_reacquire t s =
     (if pcs s ! t = Woken \<and> mutex s = None
      then Some (s\<lparr>mutex := Some (Thr t), pcs := (pcs s)[t := Exiting]\<rparr>)
      else None)"

text \<open>Line 184: a spurious wakeup.\<close>

definition Wait_cv_spurious :: "nat \<Rightarrow> cv_state \<Rightarrow> cv_state option" where
  "Wait_cv_spurious t s =
     (if pcs s ! t = Blocked then Some (s\<lparr>pcs := (pcs s)[t := Woken]\<rparr>) else None)"

text \<open>Lines 191-193: count the exit, wake the destructor at 0, unlock, return.\<close>

definition Wait_cv_exit :: "nat \<Rightarrow> cv_state \<Rightarrow> cv_state option" where
  "Wait_cv_exit t s =
     (if pcs s ! t \<noteq> Exiting then None
      else Some (note_return t
        (s\<lparr>exit_count := exit_count s - 1,
           dpc := (if exit_count s - 1 = 0 then pthread_cond_broadcast_exit (dpc s) else dpc s),
           mutex := None, pcs := (pcs s)[t := Idle]\<rparr>)))"

subsection \<open>Destructor (lines 160-172)\<close>

text \<open>Lines 161-162. The destructor of an invalid barrier does nothing and has no
  event.\<close>

definition Dtor_cv_lock :: "cv_state \<Rightarrow> cv_state option" where
  "Dtor_cv_lock s =
     (if dpc s = DNotStarted \<and> IsValid_cv s \<and> mutex s = None
      then Some (s\<lparr>mutex := Some Dtor, dpc := DLocked\<rparr>)
      else None)"

text \<open>Lines 163-166: with more than one thread, take the destructor's own slot of the
  exit count, and block on the exit condition unless that was the last slot.\<close>

definition Dtor_cv_check :: "cv_state \<Rightarrow> cv_state option" where
  "Dtor_cv_check s =
     (if dpc s \<noteq> DLocked then None
      else if 1 < thread_count s
      then (if exit_count s - 1 \<noteq> 0
            then Some (s\<lparr>exit_count := exit_count s - 1, mutex := None, dpc := DBlocked\<rparr>)
            else Some (s\<lparr>exit_count := exit_count s - 1, dpc := DUnlocking\<rparr>))
      else Some (s\<lparr>dpc := DUnlocking\<rparr>))"

definition Dtor_cv_spurious :: "cv_state \<Rightarrow> cv_state option" where
  "Dtor_cv_spurious s = (if dpc s = DBlocked then Some (s\<lparr>dpc := DWoken\<rparr>) else None)"

definition Dtor_cv_reacquire :: "cv_state \<Rightarrow> cv_state option" where
  "Dtor_cv_reacquire s =
     (if dpc s = DWoken \<and> mutex s = None
      then Some (s\<lparr>mutex := Some Dtor, dpc := DUnlocking\<rparr>)
      else None)"

text \<open>Line 167.\<close>

definition Dtor_cv_unlock :: "cv_state \<Rightarrow> cv_state option" where
  "Dtor_cv_unlock s =
     (if dpc s = DUnlocking then Some (s\<lparr>mutex := None, dpc := DDestroying\<rparr>) else None)"

text \<open>Lines 168-170.\<close>

definition Dtor_cv_destroy :: "cv_state \<Rightarrow> cv_state option" where
  "Dtor_cv_destroy s =
     (if dpc s = DDestroying then Some (s\<lparr>destroyed := True, dpc := DDone\<rparr>) else None)"

subsection \<open>Events and schedules\<close>

datatype cv_event =
    Call nat | Lock nat | Arrive nat | Reacquire nat | Spurious nat | Exit nat
  | DLock | DCheck | DSpurious | DReacquire | DUnlock | DDestroy

text \<open>A thread that does not exist has no event, and neither has anyone once the
  mutex and the condition variables are destroyed (their use is undefined then).\<close>

fun cv_thread :: "cv_event \<Rightarrow> nat option" where
  "cv_thread (Call t) = Some t"
| "cv_thread (Lock t) = Some t"
| "cv_thread (Arrive t) = Some t"
| "cv_thread (Reacquire t) = Some t"
| "cv_thread (Spurious t) = Some t"
| "cv_thread (Exit t) = Some t"
| "cv_thread _ = None"

fun cv_action :: "cv_event \<Rightarrow> cv_state \<Rightarrow> cv_state option" where
  "cv_action (Call t) s = Wait_cv_call t s"
| "cv_action (Lock t) s = Wait_cv_lock t s"
| "cv_action (Arrive t) s = Wait_cv_arrive t s"
| "cv_action (Reacquire t) s = Wait_cv_reacquire t s"
| "cv_action (Spurious t) s = Wait_cv_spurious t s"
| "cv_action (Exit t) s = Wait_cv_exit t s"
| "cv_action DLock s = Dtor_cv_lock s"
| "cv_action DCheck s = Dtor_cv_check s"
| "cv_action DSpurious s = Dtor_cv_spurious s"
| "cv_action DReacquire s = Dtor_cv_reacquire s"
| "cv_action DUnlock s = Dtor_cv_unlock s"
| "cv_action DDestroy s = Dtor_cv_destroy s"

definition cv_step :: "cv_state \<Rightarrow> cv_event \<Rightarrow> cv_state option" where
  "cv_step s e =
     (if destroyed s then None
      else case cv_thread e of
             Some t \<Rightarrow> if t < length (pcs s) then cv_action e s else None
           | None \<Rightarrow> cv_action e s)"

fun cv_run :: "cv_state \<Rightarrow> cv_event list \<Rightarrow> cv_state option" where
  "cv_run s [] = Some s"
| "cv_run s (e # es) = (case cv_step s e of None \<Rightarrow> None | Some s' \<Rightarrow> cv_run s' es)"

section \<open>Two turnstile semaphores (lines 63-108)\<close>

subsection \<open>Program locations\<close>

text \<open>
  \<^verbatim>\<open>Wait()\<close> calls \<^verbatim>\<open>WaitInternal\<close> twice, on the first and on the second
  turnstile. Inside \<^verbatim>\<open>WaitInternal\<close> (lines 97-108) a thread is
  \<^item> \<open>Counting\<close>: before the atomic \<^verbatim>\<open>wait_count_ += increment\<close> (line 98);
  \<^item> \<open>Releasing\<close>: the sum was the limit, before \<^verbatim>\<open>ReleaseSemaphore\<close> (line 100);
  \<^item> \<open>Waiting\<close>: the sum was not the limit, in \<^verbatim>\<open>WaitForSingleObject\<close> (line 104).
  \<open>Outside\<close> is outside \<^verbatim>\<open>Wait()\<close>.

  The destructor (lines 75-84) closes the second handle, then the first.
\<close>

datatype turnstile = T1 | T2

datatype sem_pc = Outside | Counting turnstile | Releasing turnstile | Waiting turnstile

datatype sem_dpc = WNotStarted | WClosing | WDone

record sem_state = observer +
  thread_count_w :: uint32
  wait_count_w :: uint32
  is_valid_w :: bool
  turnstile1 :: nat
  turnstile2 :: nat
  closed1 :: bool
  closed2 :: bool
  pcs_w :: "sem_pc list"
  dpc_w :: sem_dpc

subsection \<open>Host primitives\<close>

text \<open>
  A semaphore is its count; both are created with count 0 and maximum
  \<^verbatim>\<open>thread_count_\<close> (lines 70-71). \<^verbatim>\<open>ReleaseSemaphore\<close> adds to the count and
  fails, changing nothing, when the sum would pass the maximum or the handle is closed;
  \<^verbatim>\<open>WaitForSingleObject\<close> returns once the count is positive, taking 1 from it, and
  fails on a closed handle. The source asserts that neither fails; a failed assertion is
  \<open>None\<close>. The count released is \<^verbatim>\<open>thread_count_ - 1\<close>, at least 1 wherever
  \<^verbatim>\<open>Wait()\<close> gets that far (line 87).
\<close>

definition semaphore :: "turnstile \<Rightarrow> sem_state \<Rightarrow> nat" where
  "semaphore h s = (case h of T1 \<Rightarrow> turnstile1 s | T2 \<Rightarrow> turnstile2 s)"

definition closed :: "turnstile \<Rightarrow> sem_state \<Rightarrow> bool" where
  "closed h s = (case h of T1 \<Rightarrow> closed1 s | T2 \<Rightarrow> closed2 s)"

definition set_semaphore :: "turnstile \<Rightarrow> nat \<Rightarrow> sem_state \<Rightarrow> sem_state" where
  "set_semaphore h c s = (case h of T1 \<Rightarrow> s\<lparr>turnstile1 := c\<rparr> | T2 \<Rightarrow> s\<lparr>turnstile2 := c\<rparr>)"

definition ReleaseSemaphore :: "turnstile \<Rightarrow> uint32 \<Rightarrow> sem_state \<Rightarrow> sem_state option" where
  "ReleaseSemaphore h c s =
     (if closed h s \<or> unat (thread_count_w s) < semaphore h s + unat c then None
      else Some (set_semaphore h (semaphore h s + unat c) s))"

definition WaitForSingleObject :: "turnstile \<Rightarrow> sem_state \<Rightarrow> sem_state option" where
  "WaitForSingleObject h s =
     (if closed h s \<or> semaphore h s = 0 then None
      else Some (set_semaphore h (semaphore h s - 1) s))"

subsection \<open>Constructor (lines 63-73)\<close>

definition Barrier_w :: "uint32 \<Rightarrow> nat \<Rightarrow> sem_state" where
  "Barrier_w n k =
     \<lparr>called = replicate k 0, returned = replicate k 0, rounds = 0,
      thread_count_w = n, wait_count_w = 0, is_valid_w = (0 < n),
      turnstile1 = 0, turnstile2 = 0, closed1 = False, closed2 = False,
      pcs_w = replicate k Outside, dpc_w = WNotStarted\<rparr>"

text \<open>Modelled from the spec: \<^verbatim>\<open>IsValid()\<close>, from the missing class declaration,
  returns the field \<^verbatim>\<open>is_valid_\<close>.\<close>

definition IsValid_w :: "sem_state \<Rightarrow> bool" where
  "IsValid_w s = is_valid_w s"

subsection \<open>\<^verbatim>\<open>Wait()\<close> and \<^verbatim>\<open>WaitInternal\<close> (lines 86-108)\<close>

text \<open>Lines 87-89: an invalid barrier, or one of a single thread, returns at once.\<close>

definition Wait_w_call :: "nat \<Rightarrow> sem_state \<Rightarrow> sem_state option" where
  "Wait_w_call t s =
     (if pcs_w s ! t \<noteq> Outside then None
      else if IsValid_w s \<and> 1 < thread_count_w s
      then Some (note_call t (s\<lparr>pcs_w := (pcs_w s)[t := Counting T1]\<rparr>))
      else Some (note_return t (note_call t s)))"

text \<open>The arguments of the two calls (lines 89 and 93); \<^verbatim>\<open>-1\<close> is all ones.\<close>

definition increment :: "turnstile \<Rightarrow> uint32" where
  "increment h = (case h of T1 \<Rightarrow> 1 | T2 \<Rightarrow> - 1)"

definition limit :: "turnstile \<Rightarrow> sem_state \<Rightarrow> uint32" where
  "limit h s = (case h of T1 \<Rightarrow> thread_count_w s | T2 \<Rightarrow> 0)"

text \<open>Line 98.\<close>

definition WaitInternal_count :: "nat \<Rightarrow> turnstile \<Rightarrow> sem_state \<Rightarrow> sem_state option" where
  "WaitInternal_count t h s =
     (if pcs_w s ! t \<noteq> Counting h then None
      else Some (s\<lparr>wait_count_w := wait_count_w s + increment h,
                   pcs_w := (pcs_w s)[t := (if wait_count_w s + increment h = limit h s
                                            then Releasing h else Waiting h)]\<rparr>))"

text \<open>Where a thread goes when \<^verbatim>\<open>WaitInternal\<close> returns: to the second call, or out
  of \<^verbatim>\<open>Wait()\<close>.\<close>

definition leave :: "nat \<Rightarrow> turnstile \<Rightarrow> sem_state \<Rightarrow> sem_state" where
  "leave t h s =
     (case h of T1 \<Rightarrow> s\<lparr>pcs_w := (pcs_w s)[t := Counting T2]\<rparr>
              | T2 \<Rightarrow> note_return t (s\<lparr>pcs_w := (pcs_w s)[t := Outside]\<rparr>))"

text \<open>Lines 99-102. The first release is the moment a round is complete.\<close>

definition WaitInternal_release :: "nat \<Rightarrow> turnstile \<Rightarrow> sem_state \<Rightarrow> sem_state option" where
  "WaitInternal_release t h s =
     (if pcs_w s ! t \<noteq> Releasing h then None
      else case ReleaseSemaphore h (thread_count_w s - 1) s of
             None \<Rightarrow> None
           | Some s' \<Rightarrow> Some (leave t h (if h = T1 then note_round s' else s')))"

text \<open>Lines 103-107.\<close>

definition WaitInternal_wait :: "nat \<Rightarrow> turnstile \<Rightarrow> sem_state \<Rightarrow> sem_state option" where
  "WaitInternal_wait t h s =
     (if pcs_w s ! t \<noteq> Waiting h then None
      else case WaitForSingleObject h s of
             None \<Rightarrow> None
           | Some s' \<Rightarrow> Some (leave t h s'))"

subsection \<open>Destructor (lines 75-84)\<close>

definition Dtor_w_close2 :: "sem_state \<Rightarrow> sem_state option" where
  "Dtor_w_close2 s =
     (if dpc_w s = WNotStarted \<and> IsValid_w s
      then Some (s\<lparr>closed2 := True, dpc_w := WClosing\<rparr>) else None)"

definition Dtor_w_close1 :: "sem_state \<Rightarrow> sem_state option" where
  "Dtor_w_close1 s =
     (if dpc_w s = WClosing then Some (s\<lparr>closed1 := True, dpc_w := WDone\<rparr>) else None)"

subsection \<open>Events and schedules\<close>

datatype sem_event =
    WCall nat | WCount nat turnstile | WRelease nat turnstile | WPass nat turnstile
  | WClose2 | WClose1

fun sem_thread :: "sem_event \<Rightarrow> nat option" where
  "sem_thread (WCall t) = Some t"
| "sem_thread (WCount t h) = Some t"
| "sem_thread (WRelease t h) = Some t"
| "sem_thread (WPass t h) = Some t"
| "sem_thread _ = None"

fun sem_action :: "sem_event \<Rightarrow> sem_state \<Rightarrow> sem_state option" where
  "sem_action (WCall t) s = Wait_w_call t s"
| "sem_action (WCount t h) s = WaitInternal_count t h s"
| "sem_action (WRelease t h) s = WaitInternal_release t h s"
| "sem_action (WPass t h) s = WaitInternal_wait t h s"
| "sem_action WClose2 s = Dtor_w_close2 s"
| "sem_action WClose1 s = Dtor_w_close1 s"

definition sem_step :: "sem_state \<Rightarrow> sem_event \<Rightarrow> sem_state option" where
  "sem_step s e =
     (case sem_thread e of
        Some t \<Rightarrow> if t < length (pcs_w s) then sem_action e s else None
      | None \<Rightarrow> sem_action e s)"

fun sem_run :: "sem_state \<Rightarrow> sem_event list \<Rightarrow> sem_state option" where
  "sem_run s [] = Some s"
| "sem_run s (e # es) = (case sem_step s e of None \<Rightarrow> None | Some s' \<Rightarrow> sem_run s' es)"

section \<open>Native barrier (lines 117-136)\<close>

subsection \<open>Program locations\<close>

text \<open>
  In \<^verbatim>\<open>Wait()\<close> (lines 130-136) a thread is
  \<^item> \<open>Entering\<close>: past the validity test, before \<^verbatim>\<open>++waiting_count_\<close> (line 132);
  \<^item> \<open>AtBarrier\<close>: before the call of \<^verbatim>\<open>pthread_barrier_wait\<close> (line 133);
  \<^item> \<open>InBarrier\<close>: blocked in that call;
  \<^item> \<open>Leaving\<close>: back from it, before \<^verbatim>\<open>--waiting_count_\<close> (line 134).
  \<open>Away\<close> is outside \<^verbatim>\<open>Wait()\<close>.

  The destructor (lines 121-128) reads \<^verbatim>\<open>waiting_count_\<close> until it is 0, then
  destroys the barrier.
\<close>

datatype nb_pc = Away | Entering | AtBarrier | InBarrier | Leaving

datatype nb_dpc = NSpinning | NDestroying | NDone

record nb_state = observer +
  waiting_count :: uint32
  is_valid_n :: bool
  barrier_count :: uint32
  barrier_arrived :: uint32
  barrier_destroyed :: bool
  pcs_n :: "nb_pc list"
  dpc_n :: nb_dpc

subsection \<open>Host primitives\<close>

text \<open>
  \<^verbatim>\<open>pthread_barrier_init\<close> returns 0, or an error number. On Linux (glibc) it is
  \<^verbatim>\<open>EINVAL\<close> for a count of 0 and for every count from \<^verbatim>\<open>BARRIER_IN_THRESHOLD\<close>,
  which is \<^verbatim>\<open>UINT_MAX / 2\<close>, upwards. POSIX also lets a host answer \<^verbatim>\<open>EAGAIN\<close> when
  it lacks the resources for another barrier; whether it does is the host's state, the
  first argument here (glibc allocates nothing and never does).
  \<^verbatim>\<open>pthread_barrier_wait\<close> blocks the caller until as many threads as the count have
  called it, then lets all of them return and is ready for the next round.
\<close>

definition EINVAL :: int where "EINVAL = 22"

definition EAGAIN :: int where "EAGAIN = 11"

definition BARRIER_IN_THRESHOLD :: uint32 where "BARRIER_IN_THRESHOLD = 2147483647"

definition pthread_barrier_init :: "bool \<Rightarrow> uint32 \<Rightarrow> int" where
  "pthread_barrier_init exhausted n =
     (if n = 0 \<or> BARRIER_IN_THRESHOLD \<le> n then EINVAL
      else if exhausted then EAGAIN else 0)"

definition pthread_barrier_release :: "nb_pc list \<Rightarrow> nb_pc list" where
  "pthread_barrier_release ps = map (\<lambda>p. if p = InBarrier then Leaving else p) ps"


subsection \<open>Constructor (lines 117-119)\<close>

definition Barrier_n :: "bool \<Rightarrow> uint32 \<Rightarrow> nat \<Rightarrow> nb_state" where
  "Barrier_n exhausted n k =
     \<lparr>called = replicate k 0, returned = replicate k 0, rounds = 0,
      waiting_count = 0, is_valid_n = (pthread_barrier_init exhausted n = 0),
      barrier_count = n, barrier_arrived = 0, barrier_destroyed = False,
      pcs_n = replicate k Away, dpc_n = NSpinning\<rparr>"

text \<open>Modelled from the spec: \<^verbatim>\<open>IsValid()\<close>, from the missing class declaration,
  returns the field \<^verbatim>\<open>is_valid_\<close>.\<close>

definition IsValid_n :: "nb_state \<Rightarrow> bool" where
  "IsValid_n s = is_valid_n s"

subsection \<open>\<^verbatim>\<open>Wait()\<close> (lines 130-136)\<close>





subsection \<open>Destructor (lines 121-128)\<close>



subsection \<open>Events and schedules\<close>






section \<open>Invariants and shapes of schedules\<close>

subsection \<open>Mutex and condition variables\<close>

text \<open>The threads released by a broadcast that have not yet left \<^verbatim>\<open>Wait()\<close>.\<close>

definition outstanding :: "cv_state \<Rightarrow> nat" where
  "outstanding s = count_list (pcs s) Woken + count_list (pcs s) Exiting"

text \<open>The destructor owns the mutex at two of its locations.\<close>

definition holding :: "cv_dpc \<Rightarrow> nat" where
  "holding d = (if d = DLocked \<or> d = DUnlocking then 1 else 0)"

text \<open>Mutual exclusion: the locations that own the mutex are as many as its owners, and
  the recorded owner stands at such a location.\<close>

definition cv_mutex_inv :: "cv_state \<Rightarrow> bool" where
  "cv_mutex_inv s \<longleftrightarrow>
     count_list (pcs s) Arriving + count_list (pcs s) Exiting + holding (dpc s) =
       (if mutex s = None then 0 else 1) \<and>
     (case mutex s of
        None \<Rightarrow> True
      | Some Dtor \<Rightarrow> holding (dpc s) = 1
      | Some (Thr t) \<Rightarrow> t < length (pcs s) \<and> (pcs s ! t = Arriving \<or> pcs s ! t = Exiting))"

text \<open>The arrival counter stays below the thread count; nobody enters an invalid
  barrier.\<close>

definition cv_bound_inv :: "cv_state \<Rightarrow> bool" where
  "cv_bound_inv s \<longleftrightarrow>
     is_valid s = (0 < thread_count s) \<and>
     length (called s) = length (pcs s) \<and> length (returned s) = length (pcs s) \<and>
     (if is_valid s then wait_count s < thread_count s
      else wait_count s = 0 \<and> count_list (pcs s) Idle = length (pcs s) \<and>
           returned s = called s \<and> dpc s = DNotStarted)"


text \<open>While only \<^verbatim>\<open>Wait()\<close> runs, with no spurious wakeup and no more threads than
  the thread count: the arrival counter is the number of blocked threads, the exit count
  is one more than the number of outstanding threads.\<close>

definition cv_round_inv :: "cv_state \<Rightarrow> bool" where
  "cv_round_inv s \<longleftrightarrow>
     dpc s = DNotStarted \<and> \<not> destroyed s \<and> 0 < thread_count s \<and>
     length (pcs s) \<le> unat (thread_count s) \<and>
     wait_count s = of_nat (count_list (pcs s) Blocked) \<and>
     exit_count s = 1 + of_nat (outstanding s) \<and>
     (thread_count s = 1 \<longrightarrow> count_list (pcs s) Blocked = 0 \<and> count_list (pcs s) Woken = 0)"



text \<open>A thread's current call, as the counters see it: counted towards a round that is
  not yet complete, or released by a complete round and not yet returned.\<close>

definition cv_pending :: "cv_pc \<Rightarrow> nat" where
  "cv_pending p = (if p = AtLock \<or> p = Arriving \<or> p = Blocked then 1 else 0)"

definition cv_released :: "cv_pc \<Rightarrow> nat" where
  "cv_released p = (if p = Woken \<or> p = Exiting then 1 else 0)"

text \<open>While only \<^verbatim>\<open>Wait()\<close> runs, with no spurious wakeup and no more threads than
  the thread count: every thread has called once for each complete round, and once more
  if its call is pending; it has returned once for each complete round but the last, if
  it is still on its way out of that one.\<close>

definition cv_thread_inv :: "cv_state \<Rightarrow> bool" where
  "cv_thread_inv s \<longleftrightarrow>
     length (called s) = length (pcs s) \<and> length (returned s) = length (pcs s) \<and>
     (\<forall>t < length (pcs s).
        called s ! t = rounds s + cv_pending (pcs s ! t) \<and>
        returned s ! t + cv_released (pcs s ! t) = rounds s)"

text \<open>Events of \<^verbatim>\<open>Wait()\<close> on a host without spurious wakeups.\<close>

fun cv_wait_event :: "cv_event \<Rightarrow> bool" where
  "cv_wait_event (Call t) = True"
| "cv_wait_event (Lock t) = True"
| "cv_wait_event (Arrive t) = True"
| "cv_wait_event (Reacquire t) = True"
| "cv_wait_event (Exit t) = True"
| "cv_wait_event _ = False"


subsection \<open>Two turnstile semaphores\<close>


text \<open>The threads that have added 1 to the counter and not yet taken it back.\<close>

definition counted :: "sem_state \<Rightarrow> nat" where
  "counted s =
     count_list (pcs_w s) (Waiting T1) + count_list (pcs_w s) (Releasing T1) +
     count_list (pcs_w s) (Counting T2)"

definition sem_count_inv :: "sem_state \<Rightarrow> bool" where
  "sem_count_inv s \<longleftrightarrow>
     length (pcs_w s) \<le> unat (thread_count_w s) \<and> wait_count_w s = of_nat (counted s)"

text \<open>
  The four phases of a round, with no more threads than the thread count:
  \<^item> filling: threads arrive at the first turnstile, which is shut, while the threads of
    the round before take the permits left at the second;
  \<^item> full: the last thread has arrived and is about to open the first turnstile; all
    others wait there;
  \<^item> crossing: the first turnstile holds one permit for each thread still waiting at it;
    the second is shut;
  \<^item> crossed: the last thread has taken its count back and is about to open the second
    turnstile; all others wait there, and the first turnstile is shut again.
\<close>

definition sem_filling :: "sem_state \<Rightarrow> bool" where
  "sem_filling s \<longleftrightarrow>
     count_list (pcs_w s) (Releasing T1) = 0 \<and> count_list (pcs_w s) (Counting T2) = 0 \<and>
     count_list (pcs_w s) (Releasing T2) = 0 \<and>
     turnstile1 s = 0 \<and> turnstile2 s = count_list (pcs_w s) (Waiting T2)"

definition sem_full :: "sem_state \<Rightarrow> bool" where
  "sem_full s \<longleftrightarrow>
     count_list (pcs_w s) (Releasing T1) = 1 \<and>
     Suc (count_list (pcs_w s) (Waiting T1)) = unat (thread_count_w s) \<and>
     turnstile1 s = 0 \<and> turnstile2 s = 0"

definition sem_crossing :: "sem_state \<Rightarrow> bool" where
  "sem_crossing s \<longleftrightarrow>
     count_list (pcs_w s) (Releasing T1) = 0 \<and> count_list (pcs_w s) (Releasing T2) = 0 \<and>
     0 < count_list (pcs_w s) (Counting T2) + count_list (pcs_w s) (Waiting T2) \<and>
     count_list (pcs_w s) (Waiting T1) + count_list (pcs_w s) (Counting T2) +
       count_list (pcs_w s) (Waiting T2) = unat (thread_count_w s) \<and>
     turnstile1 s = count_list (pcs_w s) (Waiting T1) \<and> turnstile2 s = 0"

definition sem_crossed :: "sem_state \<Rightarrow> bool" where
  "sem_crossed s \<longleftrightarrow>
     count_list (pcs_w s) (Releasing T2) = 1 \<and>
     Suc (count_list (pcs_w s) (Waiting T2)) = unat (thread_count_w s) \<and>
     turnstile1 s = 0 \<and> turnstile2 s = 0"

definition sem_phase_inv :: "sem_state \<Rightarrow> bool" where
  "sem_phase_inv s \<longleftrightarrow>
     sem_count_inv s \<and> (sem_filling s \<or> sem_full s \<or> sem_crossing s \<or> sem_crossed s)"

text \<open>The release at the first turnstile completes a round; the release at the second
  ends it.\<close>

fun sem_opens :: "sem_event \<Rightarrow> bool" where
  "sem_opens (WRelease t T1) = True"
| "sem_opens _ = False"

fun sem_shuts :: "sem_event \<Rightarrow> bool" where
  "sem_shuts (WRelease t T2) = True"
| "sem_shuts _ = False"

text \<open>Between these two releases every thread is on its way through the turnstiles.\<close>

definition sem_draining :: "sem_state \<Rightarrow> bool" where
  "sem_draining s \<longleftrightarrow> sem_crossing s \<or> sem_crossed s"

definition sem_pending :: "sem_pc \<Rightarrow> nat" where
  "sem_pending p = (if p = Counting T1 \<or> p = Waiting T1 \<or> p = Releasing T1 then 1 else 0)"

definition sem_released :: "sem_pc \<Rightarrow> nat" where
  "sem_released p = (if p = Waiting T2 then 1 else 0)"

text \<open>For more than one thread and no more threads than the thread count: every
  thread has called once for each complete round, and once more if its call is pending;
  it has returned once for each complete round but the last, if it is still on its way out
  of that one.\<close>

definition sem_thread_inv :: "sem_state \<Rightarrow> bool" where
  "sem_thread_inv s \<longleftrightarrow>
     length (called s) = length (pcs_w s) \<and> length (returned s) = length (pcs_w s) \<and>
     (\<forall>t < length (pcs_w s).
        called s ! t = rounds s + (if sem_draining s then 0 else sem_pending (pcs_w s ! t)) \<and>
        returned s ! t + (if sem_draining s then 1 else sem_released (pcs_w s ! t)) =
          rounds s)"


subsection \<open>Native barrier\<close>






section \<open>Lists and words\<close>

text \<open>Counting the occurrences of a program location in the list of threads.\<close>

lemma count_list_update:
  "i < length xs \<Longrightarrow>
   count_list (xs[i := y]) z =
     (if xs ! i = z then count_list xs z - 1 else count_list xs z) + (if y = z then 1 else 0)"
proof (induction xs arbitrary: i)
  case Nil
  then show ?case by simp
next
  case (Cons x xs)
  show ?case
  proof (cases i)
    case 0
    then show ?thesis by simp
  next
    case (Suc j)
    with Cons.prems have j: "j < length xs" by simp
    have pos: "xs ! j = z \<Longrightarrow> 0 < count_list xs z"
      using j by (metis count_list_0_iff nth_mem not_gr_zero)
    show ?thesis using Suc Cons.IH [OF j] pos by auto
  qed
qed

lemma count_list_pos: "i < length xs \<Longrightarrow> xs ! i = a \<Longrightarrow> 0 < count_list xs a"
  by (metis count_list_0_iff nth_mem not_gr_zero)

lemma count_list_two:
  assumes "t \<noteq> u" "t < length xs" "u < length xs" "xs ! t = a" "xs ! u = b"
  shows "if a = b then 2 \<le> count_list xs a else 1 \<le> count_list xs a \<and> 1 \<le> count_list xs b"
proof (cases "a = b")
  case False
  then show ?thesis using assms count_list_pos [of t xs a] count_list_pos [of u xs b]
    by (simp add: Suc_leI)
next
  case True
  obtain c where c: "c \<noteq> Some a" by (cases "Some a = None") auto
  let ?ys = "map Some xs"
  have "count_list ?ys (Some a) = count_list xs a"
    by (simp add: count_list_map_conv)
  moreover have "count_list (?ys[t := None]) (Some a) = count_list ?ys (Some a) - 1"
    using assms by (simp add: count_list_update)
  moreover have "0 < count_list (?ys[t := None]) (Some a)"
    using assms True by (intro count_list_pos [of u]) (simp_all add: nth_list_update)
  ultimately show ?thesis using True by simp
qed

lemma count_list_all: "count_list xs a = length xs \<Longrightarrow> i < length xs \<Longrightarrow> xs ! i = a"
proof (induction xs arbitrary: i)
  case Nil
  then show ?case by simp
next
  case (Cons x xs)
  have le: "count_list xs a \<le> length xs" by (rule count_le_length)
  show ?case
  proof (cases "x = a")
    case True
    with Cons show ?thesis by (cases i) simp_all
  next
    case False
    with Cons.prems le show ?thesis by simp
  qed
qed

lemma count_list_all_but_one:
  assumes "Suc (count_list xs a) = length xs" and "t < length xs" and "xs ! t \<noteq> a"
    and "u < length xs" and "u \<noteq> t"
  shows "xs ! u = a"
proof -
  have "count_list (xs[t := a]) a = length (xs[t := a])"
    using assms(1,2,3) by (simp add: count_list_update)
  moreover have "u < length (xs[t := a])" using assms(4) by simp
  ultimately have "xs[t := a] ! u = a" by (rule count_list_all)
  with assms(5) show ?thesis by simp
qed

lemma count_list_replicate [simp]:
  "count_list (replicate k a) b = (if a = b then k else 0)"
  by (induction k) auto

lemma list_all_True: "list_all (\<lambda>e. True) es"
  by (simp add: list_all_iff)

text \<open>Counters are 32-bit words; the numbers of threads they count stay below the thread count, so no sum wraps around.\<close>

lemma of_nat_eq_zero_small:
  "of_nat a = (0::uint32) \<Longrightarrow> a \<le> unat (n::uint32) \<Longrightarrow> a = 0"
proof -
  assume a: "of_nat a = (0::uint32)" and le: "a \<le> unat n"
  have "unat n < 2 ^ 32" using unsigned_less [of n, where 'a = nat] by simp
  with le have "a < 2 ^ 32" by simp
  then have "unat (of_nat a :: uint32) = a" by (simp add: unat_of_nat)
  with a show ?thesis by simp
qed

lemma of_nat_Suc_eq_small:
  "of_nat a + 1 = (n::uint32) \<Longrightarrow> Suc a \<le> unat n \<Longrightarrow> unat n = Suc a"
proof -
  assume a: "of_nat a + 1 = (n::uint32)" and le: "Suc a \<le> unat n"
  have "unat n < 2 ^ 32" using unsigned_less [of n, where 'a = nat] by simp
  with le have "Suc a < 2 ^ 32" by simp
  then have "Suc a mod 2 ^ LENGTH(32) = Suc a" by simp
  then have "unat (of_nat (Suc a) :: uint32) = Suc a" by (simp only: unat_of_nat)
  moreover have "(of_nat (Suc a) :: uint32) = n" using a by (simp add: add.commute)
  ultimately show ?thesis by (simp only:)
qed

lemma of_nat_pred: "0 < a \<Longrightarrow> (of_nat (a - 1) :: uint32) = of_nat a - 1"
  by (cases a) simp_all

lemma unat_pred: "0 < unat (n::uint32) \<Longrightarrow> unat (n - 1) = unat n - 1"
  by (simp add: unat_minus_one unat_gt_0)

lemma word_succ_less: "(w::uint32) < n \<Longrightarrow> w + 1 \<noteq> n \<Longrightarrow> w + 1 < n"
  by (simp add: inc_le order_less_le)

lemma word_succ_greater: "(w::uint32) < n \<Longrightarrow> w < w + 1"
  by (metis (no_types, lifting) add.right_neutral add_left_cancel inc_i leI
    olen_add_eqv order.order_iff_strict word_less_1 zero_neq_one)


lemma word_one_less: "(1::uint32) < n \<Longrightarrow> 0 < n"
  by (simp add: word_less_nat_alt)

lemmas note_defs = note_call_def note_return_def note_round_def

section \<open>Mutex and condition variables: invariants\<close>

subsection \<open>The broadcast\<close>

lemma count_broadcast:
  "count_list (pthread_cond_broadcast ps) z =
     (if z = Blocked then 0
      else if z = Woken then count_list ps Woken + count_list ps Blocked
      else count_list ps z)"
  by (induction ps) (auto simp: pthread_cond_broadcast_def)

lemma broadcast_length [simp]: "length (pthread_cond_broadcast ps) = length ps"
  by (simp add: pthread_cond_broadcast_def)

lemma broadcast_nth:
  "t < length ps \<Longrightarrow> pthread_cond_broadcast ps ! t = (if ps ! t = Blocked then Woken else ps ! t)"
  by (simp add: pthread_cond_broadcast_def)

subsection \<open>One step, event by event\<close>

lemma cv_step_Call:
  "cv_step s (Call t) = Some s' \<longleftrightarrow>
     \<not> destroyed s \<and> t < length (pcs s) \<and> pcs s ! t = Idle \<and>
     s' = (if is_valid s then note_call t (s\<lparr>pcs := (pcs s)[t := AtLock]\<rparr>)
           else note_return t (note_call t s))"
  by (auto simp: cv_step_def Wait_cv_call_def IsValid_cv_def)

lemma cv_step_Lock:
  "cv_step s (Lock t) = Some s' \<longleftrightarrow>
     \<not> destroyed s \<and> t < length (pcs s) \<and> pcs s ! t = AtLock \<and> mutex s = None \<and>
     s' = s\<lparr>mutex := Some (Thr t), pcs := (pcs s)[t := Arriving]\<rparr>"
  by (auto simp: cv_step_def Wait_cv_lock_def)

lemma cv_step_Arrive:
  "cv_step s (Arrive t) = Some s' \<longleftrightarrow>
     \<not> destroyed s \<and> t < length (pcs s) \<and> pcs s ! t = Arriving \<and>
     s' = (if wait_count s + 1 = thread_count s
           then note_round (s\<lparr>wait_count := 0, exit_count := thread_count s + 1,
                   pcs := pthread_cond_broadcast ((pcs s)[t := Exiting])\<rparr>)
           else s\<lparr>wait_count := wait_count s + 1, mutex := None,
                   pcs := (pcs s)[t := Blocked]\<rparr>)"
  by (auto simp: cv_step_def Wait_cv_arrive_def)

lemma cv_step_Reacquire:
  "cv_step s (Reacquire t) = Some s' \<longleftrightarrow>
     \<not> destroyed s \<and> t < length (pcs s) \<and> pcs s ! t = Woken \<and> mutex s = None \<and>
     s' = s\<lparr>mutex := Some (Thr t), pcs := (pcs s)[t := Exiting]\<rparr>"
  by (auto simp: cv_step_def Wait_cv_reacquire_def)

lemma cv_step_Spurious:
  "cv_step s (Spurious t) = Some s' \<longleftrightarrow>
     \<not> destroyed s \<and> t < length (pcs s) \<and> pcs s ! t = Blocked \<and>
     s' = s\<lparr>pcs := (pcs s)[t := Woken]\<rparr>"
  by (auto simp: cv_step_def Wait_cv_spurious_def)

lemma cv_step_Exit:
  "cv_step s (Exit t) = Some s' \<longleftrightarrow>
     \<not> destroyed s \<and> t < length (pcs s) \<and> pcs s ! t = Exiting \<and>
     s' = note_return t
        (s\<lparr>exit_count := exit_count s - 1,
           dpc := (if exit_count s - 1 = 0 then pthread_cond_broadcast_exit (dpc s) else dpc s),
           mutex := None, pcs := (pcs s)[t := Idle]\<rparr>)"
  by (auto simp: cv_step_def Wait_cv_exit_def)

lemma cv_step_DLock:
  "cv_step s DLock = Some s' \<longleftrightarrow>
     \<not> destroyed s \<and> dpc s = DNotStarted \<and> is_valid s \<and> mutex s = None \<and>
     s' = s\<lparr>mutex := Some Dtor, dpc := DLocked\<rparr>"
  by (auto simp: cv_step_def Dtor_cv_lock_def IsValid_cv_def)

lemma cv_step_DCheck:
  "cv_step s DCheck = Some s' \<longleftrightarrow>
     \<not> destroyed s \<and> dpc s = DLocked \<and>
     s' = (if 1 < thread_count s
           then (if exit_count s - 1 \<noteq> 0
                 then s\<lparr>exit_count := exit_count s - 1, mutex := None, dpc := DBlocked\<rparr>
                 else s\<lparr>exit_count := exit_count s - 1, dpc := DUnlocking\<rparr>)
           else s\<lparr>dpc := DUnlocking\<rparr>)"
  by (auto simp: cv_step_def Dtor_cv_check_def)

lemma cv_step_DSpurious:
  "cv_step s DSpurious = Some s' \<longleftrightarrow>
     \<not> destroyed s \<and> dpc s = DBlocked \<and> s' = s\<lparr>dpc := DWoken\<rparr>"
  by (auto simp: cv_step_def Dtor_cv_spurious_def)

lemma cv_step_DReacquire:
  "cv_step s DReacquire = Some s' \<longleftrightarrow>
     \<not> destroyed s \<and> dpc s = DWoken \<and> mutex s = None \<and>
     s' = s\<lparr>mutex := Some Dtor, dpc := DUnlocking\<rparr>"
  by (auto simp: cv_step_def Dtor_cv_reacquire_def)

lemma cv_step_DUnlock:
  "cv_step s DUnlock = Some s' \<longleftrightarrow>
     \<not> destroyed s \<and> dpc s = DUnlocking \<and> s' = s\<lparr>mutex := None, dpc := DDestroying\<rparr>"
  by (auto simp: cv_step_def Dtor_cv_unlock_def)

lemma cv_step_DDestroy:
  "cv_step s DDestroy = Some s' \<longleftrightarrow>
     \<not> destroyed s \<and> dpc s = DDestroying \<and> s' = s\<lparr>destroyed := True, dpc := DDone\<rparr>"
  by (auto simp: cv_step_def Dtor_cv_destroy_def)

lemmas cv_step_simps = cv_step_Call cv_step_Lock cv_step_Arrive cv_step_Reacquire
  cv_step_Spurious cv_step_Exit cv_step_DLock cv_step_DCheck cv_step_DSpurious
  cv_step_DReacquire cv_step_DUnlock cv_step_DDestroy

text \<open>An invariant of the steps that a schedule takes holds after the schedule.\<close>

lemma cv_run_invariant:
  assumes "cv_run s es = Some s'" and "P s" and "list_all Q es"
    and "\<And>a e b. P a \<Longrightarrow> Q e \<Longrightarrow> cv_step a e = Some b \<Longrightarrow> P b"
  shows "P s'"
  using assms(1,2,3)
proof (induction es arbitrary: s)
  case Nil
  then show ?case by simp
next
  case (Cons e es)
  then show ?case using assms(4) by (auto split: option.splits)
qed

text \<open>No step changes the thread count, the number of threads or the validity.\<close>

lemma cv_step_frame:
  assumes "cv_step s e = Some s'"
  shows "thread_count s' = thread_count s \<and> length (pcs s') = length (pcs s) \<and>
         is_valid s' = is_valid s"
  using assms
  by (cases e) (auto simp: cv_step_simps note_defs)

lemma cv_run_frame:
  assumes "cv_run s es = Some s'"
  shows "thread_count s' = thread_count s \<and> length (pcs s') = length (pcs s) \<and>
         is_valid s' = is_valid s"
  using assms
proof (induction es arbitrary: s)
  case Nil
  then show ?case by simp
next
  case (Cons e es)
  then show ?case using cv_step_frame by (fastforce split: option.splits)
qed

lemma cv_pc_total:
  "length ps = count_list ps Idle + count_list ps AtLock + count_list ps Arriving +
     count_list ps Blocked + count_list ps Woken + count_list ps Exiting"
proof (induction ps)
  case Nil
  then show ?case by simp
next
  case (Cons p ps)
  then show ?case by (cases p) simp_all
qed

subsection \<open>Mutual exclusion\<close>

lemma cv_mutex_inv_step:
  assumes "cv_step s e = Some s'" and "cv_mutex_inv s"
  shows "cv_mutex_inv s'"
proof (cases e)
  case (Call t)
  with assms show ?thesis
    by (auto simp: cv_step_simps cv_mutex_inv_def note_defs count_list_update nth_list_update
        split: option.splits owner.splits)
next
  case (Lock t)
  with assms show ?thesis
    by (auto simp: cv_step_simps cv_mutex_inv_def note_defs count_list_update nth_list_update
        split: option.splits owner.splits)
next
  case (Arrive t)
  with assms count_list_pos [of t "pcs s" Arriving] show ?thesis
    by (auto simp: cv_step_simps cv_mutex_inv_def note_defs count_list_update nth_list_update
        count_broadcast broadcast_nth
        split: option.splits owner.splits)
next
  case (Reacquire t)
  with assms show ?thesis
    by (auto simp: cv_step_simps cv_mutex_inv_def note_defs count_list_update nth_list_update
        split: option.splits owner.splits)
next
  case (Spurious t)
  with assms show ?thesis
    by (auto simp: cv_step_simps cv_mutex_inv_def note_defs count_list_update nth_list_update
        split: option.splits owner.splits)
next
  case (Exit t)
  with assms count_list_pos [of t "pcs s" Exiting] show ?thesis
    by (auto simp: cv_step_simps cv_mutex_inv_def note_defs count_list_update nth_list_update
        pthread_cond_broadcast_exit_def holding_def
        split: option.splits owner.splits)
qed (use assms in \<open>auto simp: cv_step_simps cv_mutex_inv_def holding_def split: option.splits owner.splits if_splits\<close>)

lemma cv_init_mutex: "cv_mutex_inv (Barrier_cv n k)"
  by (simp add: cv_mutex_inv_def Barrier_cv_def holding_def)

lemma cv_run_mutex:
  assumes "cv_run s es = Some s'" and "cv_mutex_inv s"
  shows "cv_mutex_inv s'"
proof (rule cv_run_invariant [OF assms(1), where P = cv_mutex_inv and Q = "\<lambda>e. True"])
  show "cv_mutex_inv b" if "cv_mutex_inv a" "cv_step a e = Some b" for a e b
    using that(2,1) by (rule cv_mutex_inv_step)
qed (simp_all add: assms list_all_True)

lemma cv_reach_mutex: "cv_run (Barrier_cv n k) es = Some s \<Longrightarrow> cv_mutex_inv s"
  by (erule cv_run_mutex) (rule cv_init_mutex)

text \<open>A thread at a location that owns the mutex is its recorded owner.\<close>

lemma cv_holder:
  assumes "cv_mutex_inv s" and "t < length (pcs s)"
    and "pcs s ! t = Arriving \<or> pcs s ! t = Exiting"
  shows "mutex s = Some (Thr t)"
proof -
  from assms(2,3) have pos: "0 < count_list (pcs s) Arriving + count_list (pcs s) Exiting"
    using count_list_pos [of t "pcs s" Arriving] count_list_pos [of t "pcs s" Exiting] by auto
  with assms(1) have one: "count_list (pcs s) Arriving + count_list (pcs s) Exiting = 1"
    and h: "holding (dpc s) = 0" and m: "mutex s \<noteq> None"
    by (auto simp: cv_mutex_inv_def split: if_splits)
  from m obtain w where w: "mutex s = Some w" by auto
  show ?thesis
  proof (cases w)
    case Dtor
    with w assms(1) h show ?thesis by (simp add: cv_mutex_inv_def)
  next
    case (Thr u)
    with w assms(1) have u: "u < length (pcs s)" "pcs s ! u = Arriving \<or> pcs s ! u = Exiting"
      by (simp_all add: cv_mutex_inv_def)
    have "u = t"
    proof (rule ccontr)
      assume "u \<noteq> t"
      from count_list_two [OF this u(1) assms(2) refl refl] one u(2) assms(3)
      show False by (auto split: if_splits)
    qed
    with w Thr show ?thesis by simp
  qed
qed

subsection \<open>The arrival counter\<close>

lemma cv_bound_inv_step:
  assumes "cv_step s e = Some s'" and "cv_bound_inv s"
  shows "cv_bound_inv s'"
proof (cases "is_valid s")
  case False
  with assms(2) have idle: "count_list (pcs s) Idle = length (pcs s)" and d: "dpc s = DNotStarted"
    and inv: "\<not> 0 < thread_count s" "length (called s) = length (pcs s)"
      "length (returned s) = length (pcs s)" "wait_count s = 0" "returned s = called s"
    by (simp_all add: cv_bound_inv_def)
  have all: "t < length (pcs s) \<Longrightarrow> pcs s ! t = Idle" for t
    using idle by (rule count_list_all)
  show ?thesis
  proof (cases e)
    case (Call t)
    with assms False idle d inv show ?thesis
      by (simp add: cv_step_simps cv_bound_inv_def note_defs)
  qed (use assms False d all in \<open>auto simp: cv_step_simps\<close>)
next
  case True
  with assms(2) have inv: "0 < thread_count s" "length (called s) = length (pcs s)"
      "length (returned s) = length (pcs s)" "wait_count s < thread_count s"
    by (simp_all add: cv_bound_inv_def)
  show ?thesis
  proof (cases e)
    case (Arrive t)
    with assms True inv show ?thesis
      by (auto simp: cv_step_simps cv_bound_inv_def note_defs word_succ_less)
  qed (use assms True inv in \<open>auto simp: cv_step_simps cv_bound_inv_def note_defs\<close>)
qed

lemma cv_init_bound: "cv_bound_inv (Barrier_cv n k)"
  by (simp add: cv_bound_inv_def Barrier_cv_def)

lemma cv_run_bound:
  assumes "cv_run s es = Some s'" and "cv_bound_inv s"
  shows "cv_bound_inv s'"
proof (rule cv_run_invariant [OF assms(1), where P = cv_bound_inv and Q = "\<lambda>e. True"])
  show "cv_bound_inv b" if "cv_bound_inv a" "cv_step a e = Some b" for a e b
    using that(2,1) by (rule cv_bound_inv_step)
qed (simp_all add: assms list_all_True)

lemma cv_reach_bound: "cv_run (Barrier_cv n k) es = Some s \<Longrightarrow> cv_bound_inv s"
  by (erule cv_run_bound) (rule cv_init_bound)

lemma cv_counter_drop:
  assumes "cv_bound_inv s" and "cv_step s e = Some s'" and "wait_count s' < wait_count s"
  shows "(\<exists>u. e = Arrive u) \<and> wait_count s + 1 = thread_count s \<and> wait_count s' = 0"
proof (cases e)
  case (Arrive u)
  with assms(2) have u: "u < length (pcs s)" "pcs s ! u = Arriving"
    and s': "s' = (if wait_count s + 1 = thread_count s
           then note_round (s\<lparr>wait_count := 0, exit_count := thread_count s + 1,
                   pcs := pthread_cond_broadcast ((pcs s)[u := Exiting])\<rparr>)
           else s\<lparr>wait_count := wait_count s + 1, mutex := None,
                   pcs := (pcs s)[u := Blocked]\<rparr>)"
    by (simp_all add: cv_step_simps)
  have "is_valid s"
  proof (rule ccontr)
    assume "\<not> is_valid s"
    with assms(1) have "count_list (pcs s) Idle = length (pcs s)"
      by (simp add: cv_bound_inv_def)
    from count_list_all [OF this u(1)] u(2) show False by simp
  qed
  with assms(1) have "wait_count s < thread_count s" by (simp add: cv_bound_inv_def)
  then have "wait_count s < wait_count s + 1" by (rule word_succ_greater)
  with assms(3) s' Arrive show ?thesis
    by (auto simp: note_defs split: if_splits)
qed (use assms(2,3) in \<open>auto simp: cv_step_simps note_defs split: if_splits\<close>)


subsection \<open>A barrier for one thread\<close>







subsection \<open>Arrivals and exits, without spurious wakeups\<close>

lemma cv_round_inv_step:
  assumes "cv_step s e = Some s'" and "cv_round_inv s" and "cv_wait_event e"
  shows "cv_round_inv s'"
proof (cases e)
  case (Call t)
  with assms show ?thesis
    by (auto simp: cv_step_simps cv_round_inv_def outstanding_def note_defs count_list_update)
next
  case (Lock t)
  with assms show ?thesis
    by (auto simp: cv_step_simps cv_round_inv_def outstanding_def note_defs count_list_update)
next
  case (Arrive t)
  from assms Arrive have t: "t < length (pcs s)" "pcs s ! t = Arriving"
    and s': "s' = (if wait_count s + 1 = thread_count s
           then note_round (s\<lparr>wait_count := 0, exit_count := thread_count s + 1,
                   pcs := pthread_cond_broadcast ((pcs s)[t := Exiting])\<rparr>)
           else s\<lparr>wait_count := wait_count s + 1, mutex := None,
                   pcs := (pcs s)[t := Blocked]\<rparr>)"
    by (simp_all add: cv_step_simps)
  from assms(2) have inv: "dpc s = DNotStarted" "length (pcs s) \<le> unat (thread_count s)"
    "wait_count s = of_nat (count_list (pcs s) Blocked)"
    "exit_count s = 1 + of_nat (outstanding s)"
    "thread_count s = 1 \<longrightarrow> count_list (pcs s) Blocked = 0 \<and> count_list (pcs s) Woken = 0"
    "\<not> destroyed s" "0 < thread_count s"
    by (simp_all add: cv_round_inv_def)
  have pos: "0 < count_list (pcs s) Arriving" using t by (rule count_list_pos)
  show ?thesis
  proof (cases "wait_count s + 1 = thread_count s")
    case False
    with s' t inv show ?thesis
      by (auto simp: cv_round_inv_def outstanding_def count_list_update)
  next
    case True
    have "Suc (count_list (pcs s) Blocked) \<le> unat (thread_count s)"
      using inv(2) pos cv_pc_total [of "pcs s"] by linarith
    with True inv(3) have n: "unat (thread_count s) = Suc (count_list (pcs s) Blocked)"
      by (intro of_nat_Suc_eq_small) simp_all
    with inv(2) pos cv_pc_total [of "pcs s"]
    have zero: "count_list (pcs s) Woken = 0" "count_list (pcs s) Exiting = 0"
      by linarith+
    have "thread_count s = of_nat (unat (thread_count s))" by simp
    also have "\<dots> = of_nat (Suc (count_list (pcs s) Blocked))" using n by simp
    finally have "thread_count s + 1 = 1 + of_nat (Suc (count_list (pcs s) Blocked))"
      by simp
    with True s' t inv zero show ?thesis
      by (simp add: cv_round_inv_def outstanding_def count_list_update count_broadcast note_defs)
  qed
next
  case (Reacquire t)
  with assms count_list_pos [of t "pcs s" Woken] show ?thesis
    by (auto simp: cv_step_simps cv_round_inv_def outstanding_def note_defs count_list_update)
next
  case (Exit t)
  with assms count_list_pos [of t "pcs s" Exiting] show ?thesis
    by (auto simp: cv_step_simps cv_round_inv_def outstanding_def note_defs count_list_update
        pthread_cond_broadcast_exit_def)
qed (use assms in simp_all)

lemma cv_init_round: "0 < n \<Longrightarrow> k \<le> unat n \<Longrightarrow> cv_round_inv (Barrier_cv n k)"
  by (simp add: cv_round_inv_def Barrier_cv_def outstanding_def)

lemma cv_run_round:
  assumes "cv_run s es = Some s'" and "cv_round_inv s" and "list_all cv_wait_event es"
  shows "cv_round_inv s'"
proof (rule cv_run_invariant [OF assms(1), where P = cv_round_inv and Q = cv_wait_event])
  show "cv_round_inv b" if "cv_round_inv a" "cv_wait_event e" "cv_step a e = Some b" for a e b
    using that(3,1,2) by (rule cv_round_inv_step)
qed (simp_all add: assms)

lemma cv_reach_round:
  "cv_run (Barrier_cv n k) es = Some s \<Longrightarrow> 0 < n \<Longrightarrow> k \<le> unat n \<Longrightarrow>
   list_all cv_wait_event es \<Longrightarrow> cv_round_inv s"
  using cv_init_round cv_run_round by blast

subsection \<open>The exit handshake\<close>






subsection \<open>A spurious wakeup of the destructor\<close>

text \<open>The destructor waits once at line 165, without testing the exit count again. Two
  threads complete a round; thread 1 leaves, thread 0 is released and has not yet run.
  The destructor blocks, is woken with no broadcast, and destroys the mutex and the
  condition variables: thread 0 is still in \<^verbatim>\<open>Wait()\<close>, about to lock that mutex.\<close>

lemma cv_destructor_spurious_wakeup:
  "cv_run (Barrier_cv 2 2)
     [Call 0, Lock 0, Arrive 0, Call 1, Lock 1, Arrive 1, Exit 1,
      DLock, DCheck, DSpurious, DReacquire, DUnlock, DDestroy] =
     Some \<lparr>called = [1, 1], returned = [0, 1], rounds = 1, thread_count = 2,
         wait_count = 0, exit_count = 1, is_valid = True, mutex = None,
         pcs = [Woken, Idle], dpc = DDone, destroyed = True\<rparr>"
  by code_simp

subsection \<open>Rounds, without spurious wakeups\<close>

text \<open>Every thread has been through every complete round: no call returns before the round it belongs to is complete, and no round is complete before every thread has called.\<close>

lemma cv_thread_invI:
  assumes "length (called s) = length (pcs s)" and "length (returned s) = length (pcs s)"
    and "\<And>u. u < length (pcs s) \<Longrightarrow>
           called s ! u = rounds s + cv_pending (pcs s ! u) \<and>
           returned s ! u + cv_released (pcs s ! u) = rounds s"
  shows "cv_thread_inv s"
  using assms by (simp add: cv_thread_inv_def)

lemma cv_thread_invD:
  assumes "cv_thread_inv s" and "u < length (pcs s)"
  shows "called s ! u = rounds s + cv_pending (pcs s ! u)"
    and "returned s ! u + cv_released (pcs s ! u) = rounds s"
    and "length (called s) = length (pcs s)" and "length (returned s) = length (pcs s)"
  using assms by (simp_all add: cv_thread_inv_def)

lemma cv_thread_inv_step:
  assumes st: "cv_step s e = Some s'" and ri: "cv_round_inv s" and ti: "cv_thread_inv s"
    and va: "is_valid s" and we: "cv_wait_event e"
  shows "cv_thread_inv s'"
proof (cases e)
  case (Call t)
  with st va have t: "t < length (pcs s)" "pcs s ! t = Idle"
    and s': "s' = note_call t (s\<lparr>pcs := (pcs s)[t := AtLock]\<rparr>)"
    by (simp_all add: cv_step_simps)
  note len = cv_thread_invD(3,4) [OF ti t(1)]
  show ?thesis
  proof (rule cv_thread_invI)
    fix u assume "u < length (pcs s')"
    then have u: "u < length (pcs s)" using s' by (simp add: note_defs)
    from cv_thread_invD(1,2) [OF ti u] t s' len u
    show "called s' ! u = rounds s' + cv_pending (pcs s' ! u) \<and>
          returned s' ! u + cv_released (pcs s' ! u) = rounds s'"
      by (cases "u = t") (simp_all add: cv_pending_def cv_released_def note_defs)
  qed (use s' len in \<open>simp_all add: note_defs\<close>)
next
  case (Lock t)
  with st have t: "t < length (pcs s)" "pcs s ! t = AtLock"
    and s': "s' = s\<lparr>mutex := Some (Thr t), pcs := (pcs s)[t := Arriving]\<rparr>"
    by (simp_all add: cv_step_simps)
  show ?thesis
  proof (rule cv_thread_invI)
    fix u assume "u < length (pcs s')"
    then have u: "u < length (pcs s)" using s' by simp
    from cv_thread_invD(1,2) [OF ti u] t s'
    show "called s' ! u = rounds s' + cv_pending (pcs s' ! u) \<and>
          returned s' ! u + cv_released (pcs s' ! u) = rounds s'"
      by (cases "u = t") (simp_all add: cv_pending_def cv_released_def)
  qed (use s' cv_thread_invD(3,4) [OF ti t(1)] in simp_all)
next
  case (Arrive t)
  with st have t: "t < length (pcs s)" "pcs s ! t = Arriving"
    and s': "s' = (if wait_count s + 1 = thread_count s
           then note_round (s\<lparr>wait_count := 0, exit_count := thread_count s + 1,
                   pcs := pthread_cond_broadcast ((pcs s)[t := Exiting])\<rparr>)
           else s\<lparr>wait_count := wait_count s + 1, mutex := None,
                   pcs := (pcs s)[t := Blocked]\<rparr>)"
    by (simp_all add: cv_step_simps)
  note len = cv_thread_invD(3,4) [OF ti t(1)]
  show ?thesis
  proof (cases "wait_count s + 1 = thread_count s")
    case False
    show ?thesis
    proof (rule cv_thread_invI)
      fix u assume "u < length (pcs s')"
      then have u: "u < length (pcs s)" using s' False by simp
      from cv_thread_invD(1,2) [OF ti u] t s' False
      show "called s' ! u = rounds s' + cv_pending (pcs s' ! u) \<and>
            returned s' ! u + cv_released (pcs s' ! u) = rounds s'"
        by (cases "u = t") (simp_all add: cv_pending_def cv_released_def)
    qed (use s' False len in simp_all)
  next
    case True
    from ri have le: "length (pcs s) \<le> unat (thread_count s)"
      and wc: "wait_count s = of_nat (count_list (pcs s) Blocked)"
      by (simp_all add: cv_round_inv_def)
    have pos: "0 < count_list (pcs s) Arriving" using t by (rule count_list_pos)
    have "Suc (count_list (pcs s) Blocked) \<le> unat (thread_count s)"
      using le pos cv_pc_total [of "pcs s"] by linarith
    with True wc have n: "unat (thread_count s) = Suc (count_list (pcs s) Blocked)"
      by (intro of_nat_Suc_eq_small) simp_all
    with le pos cv_pc_total [of "pcs s"]
    have all: "Suc (count_list (pcs s) Blocked) = length (pcs s)" by linarith
    show ?thesis
    proof (rule cv_thread_invI)
      fix u assume "u < length (pcs s')"
      then have u: "u < length (pcs s)" using s' True by (simp add: note_defs)
      show "called s' ! u = rounds s' + cv_pending (pcs s' ! u) \<and>
            returned s' ! u + cv_released (pcs s' ! u) = rounds s'"
      proof (cases "u = t")
        case eq: True
        from cv_thread_invD(1,2) [OF ti u] t s' True eq show ?thesis
          by (simp add: cv_pending_def cv_released_def note_defs broadcast_nth)
      next
        case ne: False
        have "pcs s ! u = Blocked"
          using all t(1) _ u ne by (rule count_list_all_but_one) (simp add: t(2))
        with cv_thread_invD(1,2) [OF ti u] t s' True ne u show ?thesis
          by (simp add: cv_pending_def cv_released_def note_defs broadcast_nth)
      qed
    qed (use s' True len in \<open>simp_all add: note_defs\<close>)
  qed
next
  case (Reacquire t)
  with st have t: "t < length (pcs s)" "pcs s ! t = Woken"
    and s': "s' = s\<lparr>mutex := Some (Thr t), pcs := (pcs s)[t := Exiting]\<rparr>"
    by (simp_all add: cv_step_simps)
  show ?thesis
  proof (rule cv_thread_invI)
    fix u assume "u < length (pcs s')"
    then have u: "u < length (pcs s)" using s' by simp
    from cv_thread_invD(1,2) [OF ti u] t s'
    show "called s' ! u = rounds s' + cv_pending (pcs s' ! u) \<and>
          returned s' ! u + cv_released (pcs s' ! u) = rounds s'"
      by (cases "u = t") (simp_all add: cv_pending_def cv_released_def)
  qed (use s' cv_thread_invD(3,4) [OF ti t(1)] in simp_all)
next
  case (Exit t)
  with st have t: "t < length (pcs s)" "pcs s ! t = Exiting"
    and s': "s' = note_return t
        (s\<lparr>exit_count := exit_count s - 1,
           dpc := (if exit_count s - 1 = 0 then pthread_cond_broadcast_exit (dpc s) else dpc s),
           mutex := None, pcs := (pcs s)[t := Idle]\<rparr>)"
    by (simp_all add: cv_step_simps)
  note len = cv_thread_invD(3,4) [OF ti t(1)]
  show ?thesis
  proof (rule cv_thread_invI)
    fix u assume "u < length (pcs s')"
    then have u: "u < length (pcs s)" using s' by (simp add: note_defs)
    from cv_thread_invD(1,2) [OF ti u] t s' len u
    show "called s' ! u = rounds s' + cv_pending (pcs s' ! u) \<and>
          returned s' ! u + cv_released (pcs s' ! u) = rounds s'"
      by (cases "u = t") (simp_all add: cv_pending_def cv_released_def note_defs)
  qed (use s' len in \<open>simp_all add: note_defs\<close>)
qed (use we in simp_all)

lemma cv_reach_thread:
  assumes "cv_run (Barrier_cv n k) es = Some s" and "0 < n" and "k \<le> unat n"
    and "list_all cv_wait_event es"
  shows "cv_thread_inv s"
proof -
  let ?P = "\<lambda>s. cv_round_inv s \<and> cv_thread_inv s \<and> cv_bound_inv s"
  have "?P s"
  proof (rule cv_run_invariant [OF assms(1), where P = ?P and Q = cv_wait_event])
    show "?P (Barrier_cv n k)"
      using assms(2,3) cv_init_round [of n k] cv_init_bound [of n k]
      by (simp add: cv_thread_inv_def Barrier_cv_def cv_pending_def cv_released_def)
    show "?P b" if a: "?P a" and e: "cv_wait_event e" and st: "cv_step a e = Some b" for a e b
    proof -
      from a have "is_valid a" by (simp add: cv_bound_inv_def cv_round_inv_def)
      with a e st show ?thesis
        using cv_round_inv_step [of a e b] cv_thread_inv_step [of a e b]
          cv_bound_inv_step [of a e b] by simp
    qed
  qed (rule assms(4))
  then show ?thesis by simp
qed

lemma cv_no_early_return:
  assumes "cv_run (Barrier_cv n k) es = Some s" and "0 < n" and "k \<le> unat n"
    and "list_all cv_wait_event es"
    and "t < length (pcs s)" and "u < length (pcs s)"
  shows "returned s ! t \<le> rounds s \<and> rounds s \<le> called s ! u"
  using cv_thread_invD(2) [OF cv_reach_thread [OF assms(1-4)] assms(5)]
    cv_thread_invD(1) [OF cv_reach_thread [OF assms(1-4)] assms(6)]
  by simp

text \<open>With no round complete nobody has been released, and the destructor runs through.\<close>

lemma cv_no_round_no_release:
  assumes "cv_thread_inv s" and "rounds s = 0"
  shows "outstanding s = 0"
proof -
  have "p \<noteq> Woken \<and> p \<noteq> Exiting" if "p \<in> set (pcs s)" for p
  proof -
    from that obtain t where t: "t < length (pcs s)" "pcs s ! t = p"
      by (auto simp: in_set_conv_nth)
    from cv_thread_invD(2) [OF assms(1) t(1)] assms(2) t(2) show ?thesis
      by (auto simp: cv_released_def split: if_splits)
  qed
  then have "Woken \<notin> set (pcs s)" "Exiting \<notin> set (pcs s)" by auto
  then show ?thesis by (simp add: outstanding_def)
qed

lemma cv_destructor_passes:
  assumes "cv_run (Barrier_cv n k) es = Some s" and "0 < n" and "k \<le> unat n"
    and "list_all cv_wait_event es" and "rounds s = 0" and "mutex s = None"
  shows "\<exists>s'. cv_run s [DLock, DCheck, DUnlock, DDestroy] = Some s' \<and> destroyed s'"
proof -
  have ri: "cv_round_inv s" using assms(1-4) by (rule cv_reach_round)
  have "cv_thread_inv s" using assms(1-4) by (rule cv_reach_thread)
  then have "outstanding s = 0" using assms(5) by (rule cv_no_round_no_release)
  with ri have e: "exit_count s = 1" and d: "dpc s = DNotStarted" "\<not> destroyed s"
    and tc: "0 < thread_count s"
    by (simp_all add: cv_round_inv_def)
  have v: "is_valid s" using cv_reach_bound [OF assms(1)] tc by (simp add: cv_bound_inv_def)
  show ?thesis
    using e d v assms(6)
    by (simp add: cv_step_def Dtor_cv_lock_def Dtor_cv_check_def Dtor_cv_unlock_def
        Dtor_cv_destroy_def IsValid_cv_def)
qed

section \<open>Two turnstile semaphores: invariants\<close>

subsection \<open>One step, event by event\<close>

lemmas sem_prims = semaphore_def closed_def set_semaphore_def ReleaseSemaphore_def
  WaitForSingleObject_def leave_def increment_def limit_def IsValid_w_def

lemma sem_step_WCall:
  "sem_step s (WCall t) = Some s' \<longleftrightarrow>
     t < length (pcs_w s) \<and> pcs_w s ! t = Outside \<and>
     s' = (if is_valid_w s \<and> 1 < thread_count_w s
           then note_call t (s\<lparr>pcs_w := (pcs_w s)[t := Counting T1]\<rparr>)
           else note_return t (note_call t s))"
  by (auto simp: sem_step_def Wait_w_call_def IsValid_w_def)

lemma sem_step_WCount1:
  "sem_step s (WCount t T1) = Some s' \<longleftrightarrow>
     t < length (pcs_w s) \<and> pcs_w s ! t = Counting T1 \<and>
     s' = s\<lparr>wait_count_w := wait_count_w s + 1,
             pcs_w := (pcs_w s)[t := (if wait_count_w s + 1 = thread_count_w s
                                      then Releasing T1 else Waiting T1)]\<rparr>"
  by (auto simp: sem_step_def WaitInternal_count_def sem_prims)

lemma sem_step_WCount2:
  "sem_step s (WCount t T2) = Some s' \<longleftrightarrow>
     t < length (pcs_w s) \<and> pcs_w s ! t = Counting T2 \<and>
     s' = s\<lparr>wait_count_w := wait_count_w s - 1,
             pcs_w := (pcs_w s)[t := (if wait_count_w s - 1 = 0
                                      then Releasing T2 else Waiting T2)]\<rparr>"
  by (auto simp: sem_step_def WaitInternal_count_def sem_prims)

lemma sem_step_WRelease1:
  "sem_step s (WRelease t T1) = Some s' \<longleftrightarrow>
     t < length (pcs_w s) \<and> pcs_w s ! t = Releasing T1 \<and> \<not> closed1 s \<and>
     turnstile1 s + unat (thread_count_w s - 1) \<le> unat (thread_count_w s) \<and>
     s' = s\<lparr>turnstile1 := turnstile1 s + unat (thread_count_w s - 1),
             rounds := Suc (rounds s), pcs_w := (pcs_w s)[t := Counting T2]\<rparr>"
  by (auto simp: sem_step_def WaitInternal_release_def sem_prims note_round_def)

lemma sem_step_WRelease2:
  "sem_step s (WRelease t T2) = Some s' \<longleftrightarrow>
     t < length (pcs_w s) \<and> pcs_w s ! t = Releasing T2 \<and> \<not> closed2 s \<and>
     turnstile2 s + unat (thread_count_w s - 1) \<le> unat (thread_count_w s) \<and>
     s' = note_return t (s\<lparr>turnstile2 := turnstile2 s + unat (thread_count_w s - 1),
             pcs_w := (pcs_w s)[t := Outside]\<rparr>)"
  by (auto simp: sem_step_def WaitInternal_release_def sem_prims)

lemma sem_step_WPass1:
  "sem_step s (WPass t T1) = Some s' \<longleftrightarrow>
     t < length (pcs_w s) \<and> pcs_w s ! t = Waiting T1 \<and> \<not> closed1 s \<and> 0 < turnstile1 s \<and>
     s' = s\<lparr>turnstile1 := turnstile1 s - 1, pcs_w := (pcs_w s)[t := Counting T2]\<rparr>"
  by (auto simp: sem_step_def WaitInternal_wait_def sem_prims)

lemma sem_step_WPass2:
  "sem_step s (WPass t T2) = Some s' \<longleftrightarrow>
     t < length (pcs_w s) \<and> pcs_w s ! t = Waiting T2 \<and> \<not> closed2 s \<and> 0 < turnstile2 s \<and>
     s' = note_return t (s\<lparr>turnstile2 := turnstile2 s - 1, pcs_w := (pcs_w s)[t := Outside]\<rparr>)"
  by (auto simp: sem_step_def WaitInternal_wait_def sem_prims)

lemma sem_step_WClose2:
  "sem_step s WClose2 = Some s' \<longleftrightarrow>
     dpc_w s = WNotStarted \<and> is_valid_w s \<and> s' = s\<lparr>closed2 := True, dpc_w := WClosing\<rparr>"
  by (auto simp: sem_step_def Dtor_w_close2_def IsValid_w_def)

lemma sem_step_WClose1:
  "sem_step s WClose1 = Some s' \<longleftrightarrow>
     dpc_w s = WClosing \<and> s' = s\<lparr>closed1 := True, dpc_w := WDone\<rparr>"
  by (auto simp: sem_step_def Dtor_w_close1_def)

lemmas sem_step_simps = sem_step_WCall sem_step_WCount1 sem_step_WCount2 sem_step_WRelease1
  sem_step_WRelease2 sem_step_WPass1 sem_step_WPass2 sem_step_WClose2 sem_step_WClose1

lemma sem_run_invariant:
  assumes "sem_run s es = Some s'" and "P s"
    and "\<And>a e b. P a \<Longrightarrow> sem_step a e = Some b \<Longrightarrow> P b"
  shows "P s'"
  using assms(1,2)
proof (induction es arbitrary: s)
  case Nil
  then show ?case by simp
next
  case (Cons e es)
  then show ?case using assms(3) by (auto split: option.splits)
qed

lemma sem_step_frame:
  assumes "sem_step s e = Some s'"
  shows "thread_count_w s' = thread_count_w s \<and> length (pcs_w s') = length (pcs_w s) \<and>
         is_valid_w s' = is_valid_w s"
proof (cases e)
  case (WCount t h)
  with assms show ?thesis by (cases h) (auto simp: sem_step_simps)
next
  case (WRelease t h)
  with assms show ?thesis by (cases h) (auto simp: sem_step_simps note_defs)
next
  case (WPass t h)
  with assms show ?thesis by (cases h) (auto simp: sem_step_simps note_defs)
qed (use assms in \<open>auto simp: sem_step_simps note_defs\<close>)

lemma sem_run_frame:
  assumes "sem_run s es = Some s'"
  shows "thread_count_w s' = thread_count_w s \<and> length (pcs_w s') = length (pcs_w s) \<and>
         is_valid_w s' = is_valid_w s"
  using assms
proof (induction es arbitrary: s)
  case Nil
  then show ?case by simp
next
  case (Cons e es)
  from Cons.prems obtain a where a: "sem_step s e = Some a" "sem_run a es = Some s'"
    by (auto split: option.splits)
  from sem_step_frame [OF a(1)] Cons.IH [OF a(2)] show ?case by simp
qed

lemma sem_pc_total:
  "length ps = count_list ps Outside + count_list ps (Counting T1) +
     count_list ps (Releasing T1) + count_list ps (Waiting T1) +
     count_list ps (Counting T2) + count_list ps (Releasing T2) + count_list ps (Waiting T2)"
proof (induction ps)
  case Nil
  then show ?case by simp
next
  case (Cons p ps)
  show ?case
  proof (cases p)
    case Outside
    with Cons show ?thesis by simp
  next
    case (Counting h)
    with Cons show ?thesis by (cases h) simp_all
  next
    case (Releasing h)
    with Cons show ?thesis by (cases h) simp_all
  next
    case (Waiting h)
    with Cons show ?thesis by (cases h) simp_all
  qed
qed

subsection \<open>The counter\<close>

lemma sem_count_inv_step:
  assumes "sem_step s e = Some s'" and "sem_count_inv s"
  shows "sem_count_inv s'"
proof (cases e)
  case (WCall t)
  with assms show ?thesis
    by (auto simp: sem_step_simps sem_count_inv_def counted_def note_defs count_list_update)
next
  case (WCount t h)
  show ?thesis
  proof (cases h)
    case T1
    with WCount assms show ?thesis
      by (auto simp: sem_step_simps sem_count_inv_def counted_def count_list_update)
  next
    case T2
    with WCount assms count_list_pos [of t "pcs_w s" "Counting T2"] show ?thesis
      by (auto simp: sem_step_simps sem_count_inv_def counted_def count_list_update)
  qed
next
  case (WRelease t h)
  show ?thesis
  proof (cases h)
    case T1
    with WRelease assms count_list_pos [of t "pcs_w s" "Releasing T1"] show ?thesis
      by (auto simp: sem_step_simps sem_count_inv_def counted_def count_list_update)
  next
    case T2
    with WRelease assms show ?thesis
      by (auto simp: sem_step_simps sem_count_inv_def counted_def count_list_update note_defs)
  qed
next
  case (WPass t h)
  show ?thesis
  proof (cases h)
    case T1
    with WPass assms count_list_pos [of t "pcs_w s" "Waiting T1"] show ?thesis
      by (auto simp: sem_step_simps sem_count_inv_def counted_def count_list_update)
  next
    case T2
    with WPass assms show ?thesis
      by (auto simp: sem_step_simps sem_count_inv_def counted_def count_list_update note_defs)
  qed
next
  case WClose2
  with assms show ?thesis
    by (auto simp: sem_step_simps sem_count_inv_def counted_def)
next
  case WClose1
  with assms show ?thesis
    by (auto simp: sem_step_simps sem_count_inv_def counted_def)
qed

lemma sem_counter_bound:
  assumes "sem_count_inv s"
  shows "unat (wait_count_w s) = counted s \<and> counted s \<le> unat (thread_count_w s)"
proof -
  from assms have len: "length (pcs_w s) \<le> unat (thread_count_w s)"
    and wc: "wait_count_w s = of_nat (counted s)"
    by (simp_all add: sem_count_inv_def)
  have le: "counted s \<le> unat (thread_count_w s)"
    using len sem_pc_total [of "pcs_w s"] by (simp add: counted_def)
  have "unat (thread_count_w s) < 2 ^ 32"
    using unsigned_less [of "thread_count_w s", where 'a = nat] by simp
  with le have "counted s mod 2 ^ LENGTH(32) = counted s" by simp
  then have "unat (of_nat (counted s) :: uint32) = counted s" by (simp only: unat_of_nat)
  with wc le show ?thesis by simp
qed

lemma sem_counter_change:
  assumes "sem_step s e = Some s'" and "wait_count_w s' \<noteq> wait_count_w s"
  shows "\<exists>u h. e = WCount u h"
proof (cases e)
  case (WRelease u h)
  with assms show ?thesis by (cases h) (auto simp: sem_step_simps note_defs)
next
  case (WPass u h)
  with assms show ?thesis by (cases h) (auto simp: sem_step_simps note_defs)
qed (use assms in \<open>auto simp: sem_step_simps note_defs split: if_splits\<close>)

subsection \<open>The four phases of a round\<close>

lemmas sem_phase_defs = sem_filling_def sem_full_def sem_crossing_def sem_crossed_def

text \<open>Each step stays in its phase or moves to the next; only the two releases move between the halves of a round.\<close>

lemma sem_phase_move:
  assumes st: "sem_step s e = Some s'" and ci: "sem_count_inv s"
    and ph: "sem_filling s \<or> sem_full s \<or> sem_crossing s \<or> sem_crossed s"
  shows "(sem_opens e \<longrightarrow> sem_full s \<and> sem_crossing s') \<and>
         (sem_shuts e \<longrightarrow> sem_crossed s \<and> sem_filling s') \<and>
         (\<not> sem_opens e \<and> \<not> sem_shuts e \<longrightarrow>
            (sem_filling s \<or> sem_full s) \<and> (sem_filling s' \<or> sem_full s') \<or>
            sem_draining s \<and> sem_draining s')"
proof -
  note tot = sem_pc_total [of "pcs_w s"]
  from ci have len: "length (pcs_w s) \<le> unat (thread_count_w s)"
    and wc: "wait_count_w s = of_nat (counted s)"
    by (simp_all add: sem_count_inv_def)
  show ?thesis
  proof (cases e)
    case (WCall t)
    with st ph show ?thesis
      by (auto simp: sem_step_simps sem_phase_defs sem_draining_def note_defs count_list_update)
  next
    case (WCount t h)
    show ?thesis
    proof (cases h)
      case T1
      with WCount st have t: "t < length (pcs_w s)" "pcs_w s ! t = Counting T1"
        and s': "s' = s\<lparr>wait_count_w := wait_count_w s + 1,
             pcs_w := (pcs_w s)[t := (if wait_count_w s + 1 = thread_count_w s
                                      then Releasing T1 else Waiting T1)]\<rparr>"
        by (simp_all add: sem_step_simps)
      have pos: "0 < count_list (pcs_w s) (Counting T1)" using t by (rule count_list_pos)
      from ph pos tot len have f: "sem_filling s"
        by (auto simp: sem_phase_defs)
      show ?thesis
      proof (cases "wait_count_w s + 1 = thread_count_w s")
        case False
        with f s' t have "sem_filling s'"
          by (simp add: sem_filling_def count_list_update)
        with f WCount T1 show ?thesis by simp
      next
        case True
        from f have c: "counted s = count_list (pcs_w s) (Waiting T1)"
          by (simp add: counted_def sem_filling_def)
        have "Suc (counted s) \<le> unat (thread_count_w s)"
          using c pos tot len by linarith
        with True wc have n: "unat (thread_count_w s) = Suc (counted s)"
          by (intro of_nat_Suc_eq_small) simp_all
        with c pos tot len have "count_list (pcs_w s) (Waiting T2) = 0" by linarith
        with True f s' t n c have "sem_full s'"
          by (simp add: sem_filling_def sem_full_def count_list_update)
        with f WCount T1 show ?thesis by simp
      qed
    next
      case T2
      with WCount st have t: "t < length (pcs_w s)" "pcs_w s ! t = Counting T2"
        and s': "s' = s\<lparr>wait_count_w := wait_count_w s - 1,
             pcs_w := (pcs_w s)[t := (if wait_count_w s - 1 = 0
                                      then Releasing T2 else Waiting T2)]\<rparr>"
        by (simp_all add: sem_step_simps)
      have pos: "0 < count_list (pcs_w s) (Counting T2)" using t by (rule count_list_pos)
      from ph pos tot len have z: "sem_crossing s"
        by (auto simp: sem_phase_defs)
      then have c: "counted s = count_list (pcs_w s) (Waiting T1) + count_list (pcs_w s) (Counting T2)"
        by (simp add: counted_def sem_crossing_def)
      show ?thesis
      proof (cases "wait_count_w s - 1 = 0")
        case False
        with z s' t pos have "sem_crossing s'"
          by (simp add: sem_crossing_def count_list_update)
        with z WCount T2 show ?thesis by (simp add: sem_draining_def)
      next
        case True
        have "(of_nat (counted s - 1) :: uint32) = 0"
          using True wc c pos by (simp add: of_nat_pred)
        moreover have "counted s - 1 \<le> unat (thread_count_w s)"
          using c tot len by linarith
        ultimately have "counted s - 1 = 0" by (rule of_nat_eq_zero_small)
        with c pos have a: "count_list (pcs_w s) (Waiting T1) = 0"
          "count_list (pcs_w s) (Counting T2) = 1" by linarith+
        with True z s' t have "sem_crossed s'"
          by (simp add: sem_crossing_def sem_crossed_def count_list_update)
        with z WCount T2 show ?thesis by (simp add: sem_draining_def)
      qed
    qed
  next
    case (WRelease t h)
    show ?thesis
    proof (cases h)
      case T1
      with WRelease st have t: "t < length (pcs_w s)" "pcs_w s ! t = Releasing T1"
        and s': "s' = s\<lparr>turnstile1 := turnstile1 s + unat (thread_count_w s - 1),
             rounds := Suc (rounds s), pcs_w := (pcs_w s)[t := Counting T2]\<rparr>"
        by (simp_all add: sem_step_simps)
      have pos: "0 < count_list (pcs_w s) (Releasing T1)" using t by (rule count_list_pos)
      from ph pos tot len have y: "sem_full s"
        by (auto simp: sem_phase_defs)
      then have n: "unat (thread_count_w s) = Suc (count_list (pcs_w s) (Waiting T1))"
        by (simp add: sem_full_def)
      then have "unat (thread_count_w s - 1) = count_list (pcs_w s) (Waiting T1)"
        by (simp add: unat_pred)
      moreover from y n tot len have "count_list (pcs_w s) (Waiting T2) = 0"
        "count_list (pcs_w s) (Counting T2) = 0" "count_list (pcs_w s) (Releasing T2) = 0"
        by (simp_all add: sem_full_def)
      ultimately have "sem_crossing s'" using y s' t n
        by (simp add: sem_full_def sem_crossing_def count_list_update)
      with y WRelease T1 show ?thesis by simp
    next
      case T2
      with WRelease st have t: "t < length (pcs_w s)" "pcs_w s ! t = Releasing T2"
        and s': "s' = note_return t (s\<lparr>turnstile2 := turnstile2 s + unat (thread_count_w s - 1),
             pcs_w := (pcs_w s)[t := Outside]\<rparr>)"
        by (simp_all add: sem_step_simps)
      have pos: "0 < count_list (pcs_w s) (Releasing T2)" using t by (rule count_list_pos)
      from ph pos tot len have w: "sem_crossed s"
        by (auto simp: sem_phase_defs)
      then have n: "unat (thread_count_w s) = Suc (count_list (pcs_w s) (Waiting T2))"
        by (simp add: sem_crossed_def)
      then have "unat (thread_count_w s - 1) = count_list (pcs_w s) (Waiting T2)"
        by (simp add: unat_pred)
      moreover from w n tot len have "count_list (pcs_w s) (Releasing T1) = 0"
        "count_list (pcs_w s) (Counting T2) = 0"
        by (simp_all add: sem_crossed_def)
      ultimately have "sem_filling s'" using w s' t n
        by (simp add: sem_crossed_def sem_filling_def count_list_update note_defs)
      with w WRelease T2 show ?thesis by simp
    qed
  next
    case (WPass t h)
    show ?thesis
    proof (cases h)
      case T1
      with WPass st have t: "t < length (pcs_w s)" "pcs_w s ! t = Waiting T1"
        and p: "0 < turnstile1 s"
        and s': "s' = s\<lparr>turnstile1 := turnstile1 s - 1, pcs_w := (pcs_w s)[t := Counting T2]\<rparr>"
        by (simp_all add: sem_step_simps)
      have pos: "0 < count_list (pcs_w s) (Waiting T1)" using t by (rule count_list_pos)
      from ph p have z: "sem_crossing s"
        by (auto simp: sem_phase_defs)
      with s' t pos have "sem_crossing s'"
        by (simp add: sem_crossing_def count_list_update)
      with z WPass T1 show ?thesis by (simp add: sem_draining_def)
    next
      case T2
      with WPass st have t: "t < length (pcs_w s)" "pcs_w s ! t = Waiting T2"
        and p: "0 < turnstile2 s"
        and s': "s' = note_return t (s\<lparr>turnstile2 := turnstile2 s - 1, pcs_w := (pcs_w s)[t := Outside]\<rparr>)"
        by (simp_all add: sem_step_simps)
      have pos: "0 < count_list (pcs_w s) (Waiting T2)" using t by (rule count_list_pos)
      from ph p have f: "sem_filling s"
        by (auto simp: sem_phase_defs)
      with s' t pos have "sem_filling s'"
        by (simp add: sem_filling_def count_list_update note_defs)
      with f WPass T2 show ?thesis by simp
    qed
  next
    case WClose2
    with st ph show ?thesis
      by (auto simp: sem_step_simps sem_phase_defs sem_draining_def)
  next
    case WClose1
    with st ph show ?thesis
      by (auto simp: sem_step_simps sem_phase_defs sem_draining_def)
  qed
qed

lemma sem_phase_step:
  assumes "sem_step s e = Some s'" and "sem_count_inv s"
    and "sem_filling s \<or> sem_full s \<or> sem_crossing s \<or> sem_crossed s"
  shows "sem_filling s' \<or> sem_full s' \<or> sem_crossing s' \<or> sem_crossed s'"
  using sem_phase_move [OF assms] by (auto simp: sem_draining_def)

lemma sem_phase_inv_step:
  assumes "sem_step s e = Some s'" and "sem_phase_inv s"
  shows "sem_phase_inv s'"
  using assms sem_count_inv_step [of s e s'] sem_phase_step [of s e s']
  by (simp add: sem_phase_inv_def)

lemma sem_init_phase: "k \<le> unat n \<Longrightarrow> sem_phase_inv (Barrier_w n k)"
  by (simp add: sem_phase_inv_def sem_count_inv_def counted_def sem_filling_def Barrier_w_def)

lemma sem_reach_phase:
  assumes "sem_run (Barrier_w n k) es = Some s" and "k \<le> unat n"
  shows "sem_phase_inv s"
proof (rule sem_run_invariant [OF assms(1), where P = sem_phase_inv])
  show "sem_phase_inv (Barrier_w n k)" using assms(2) by (rule sem_init_phase)
  show "sem_phase_inv b" if "sem_phase_inv a" "sem_step a e = Some b" for a e b
    using that(2,1) by (rule sem_phase_inv_step)
qed



lemma sem_full_others:
  assumes "sem_full s" and "length (pcs_w s) \<le> unat (thread_count_w s)"
  shows "count_list (pcs_w s) Outside = 0 \<and> count_list (pcs_w s) (Counting T1) = 0 \<and>
         count_list (pcs_w s) (Counting T2) = 0 \<and> count_list (pcs_w s) (Releasing T2) = 0 \<and>
         count_list (pcs_w s) (Waiting T2) = 0"
  using assms sem_pc_total [of "pcs_w s"] by (simp add: sem_full_def)

lemma sem_crossed_others:
  assumes "sem_crossed s" and "length (pcs_w s) \<le> unat (thread_count_w s)"
  shows "count_list (pcs_w s) Outside = 0 \<and> count_list (pcs_w s) (Counting T1) = 0 \<and>
         count_list (pcs_w s) (Counting T2) = 0 \<and> count_list (pcs_w s) (Releasing T1) = 0 \<and>
         count_list (pcs_w s) (Waiting T1) = 0"
  using assms sem_pc_total [of "pcs_w s"] by (simp add: sem_crossed_def)


subsection \<open>Barriers that nobody enters\<close>




subsection \<open>Rounds\<close>

text \<open>Every thread has been through every complete round, on every schedule.\<close>

lemma sem_phase_exclusive:
  assumes "length (pcs_w s) \<le> unat (thread_count_w s)"
    and "sem_filling s \<or> sem_full s"
  shows "\<not> sem_draining s"
  using assms sem_pc_total [of "pcs_w s"]
  by (auto simp: sem_phase_defs sem_draining_def)

lemma sem_draining_inside:
  assumes "sem_draining s" and "length (pcs_w s) \<le> unat (thread_count_w s)"
  shows "count_list (pcs_w s) Outside = 0"
  using assms sem_pc_total [of "pcs_w s"]
  by (auto simp: sem_phase_defs sem_draining_def)

lemma sem_draining_first_empty:
  assumes "sem_draining s" and "length (pcs_w s) \<le> unat (thread_count_w s)"
  shows "count_list (pcs_w s) (Counting T1) = 0"
  using assms sem_pc_total [of "pcs_w s"]
  by (auto simp: sem_phase_defs sem_draining_def)

lemma sem_filling_second_empty:
  assumes "sem_filling s \<or> sem_full s" and "length (pcs_w s) \<le> unat (thread_count_w s)"
  shows "count_list (pcs_w s) (Counting T2) = 0 \<and> turnstile1 s = 0"
  using assms sem_pc_total [of "pcs_w s"]
  by (auto simp: sem_phase_defs)

lemma sem_draining_second_shut:
  assumes "sem_draining s"
  shows "turnstile2 s = 0"
  using assms by (auto simp: sem_phase_defs sem_draining_def)

lemma sem_full_thread:
  assumes "sem_full s" and "length (pcs_w s) \<le> unat (thread_count_w s)"
    and "u < length (pcs_w s)"
  shows "sem_pending (pcs_w s ! u) = 1 \<and> sem_released (pcs_w s ! u) = 0"
proof -
  from sem_full_others [OF assms(1,2)] have
    "Outside \<notin> set (pcs_w s)" "Counting T2 \<notin> set (pcs_w s)"
    "Releasing T2 \<notin> set (pcs_w s)" "Waiting T2 \<notin> set (pcs_w s)"
    by (simp_all add: count_list_0_iff)
  moreover have "pcs_w s ! u \<in> set (pcs_w s)" using assms(3) by simp
  ultimately have "pcs_w s ! u \<noteq> Outside" "pcs_w s ! u \<noteq> Counting T2"
    "pcs_w s ! u \<noteq> Releasing T2" "pcs_w s ! u \<noteq> Waiting T2"
    by metis+
  then show ?thesis
  proof (cases "pcs_w s ! u")
    case (Counting h)
    then show ?thesis using \<open>pcs_w s ! u \<noteq> Counting T2\<close>
      by (cases h) (simp_all add: sem_pending_def sem_released_def)
  next
    case (Releasing h)
    then show ?thesis using \<open>pcs_w s ! u \<noteq> Releasing T2\<close>
      by (cases h) (simp_all add: sem_pending_def sem_released_def)
  next
    case (Waiting h)
    then show ?thesis using \<open>pcs_w s ! u \<noteq> Waiting T2\<close>
      by (cases h) (simp_all add: sem_pending_def sem_released_def)
  qed simp
qed

lemma sem_crossed_thread:
  assumes "sem_crossed s" and "length (pcs_w s) \<le> unat (thread_count_w s)"
    and "u < length (pcs_w s)" and "pcs_w s ! u \<noteq> Releasing T2"
  shows "pcs_w s ! u = Waiting T2"
proof -
  from sem_crossed_others [OF assms(1,2)] have
    "Outside \<notin> set (pcs_w s)" "Counting T1 \<notin> set (pcs_w s)"
    "Counting T2 \<notin> set (pcs_w s)" "Releasing T1 \<notin> set (pcs_w s)"
    "Waiting T1 \<notin> set (pcs_w s)"
    by (simp_all add: count_list_0_iff)
  moreover have "pcs_w s ! u \<in> set (pcs_w s)" using assms(3) by simp
  ultimately have ne: "pcs_w s ! u \<noteq> Outside" "pcs_w s ! u \<noteq> Counting T1"
    "pcs_w s ! u \<noteq> Counting T2" "pcs_w s ! u \<noteq> Releasing T1" "pcs_w s ! u \<noteq> Waiting T1"
    by metis+
  show ?thesis
  proof (cases "pcs_w s ! u")
    case Outside
    with ne show ?thesis by simp
  next
    case (Counting h)
    with ne show ?thesis by (cases h) simp_all
  next
    case (Releasing h)
    with ne assms(4) show ?thesis by (cases h) simp_all
  next
    case (Waiting h)
    with ne show ?thesis by (cases h) simp_all
  qed
qed

lemma sem_thread_invI:
  assumes "length (called s) = length (pcs_w s)" and "length (returned s) = length (pcs_w s)"
    and "\<And>u. u < length (pcs_w s) \<Longrightarrow>
        called s ! u = rounds s + (if sem_draining s then 0 else sem_pending (pcs_w s ! u)) \<and>
        returned s ! u + (if sem_draining s then 1 else sem_released (pcs_w s ! u)) = rounds s"
  shows "sem_thread_inv s"
  using assms by (simp add: sem_thread_inv_def)

lemma sem_thread_invD:
  assumes "sem_thread_inv s" and "u < length (pcs_w s)"
  shows "called s ! u = rounds s + (if sem_draining s then 0 else sem_pending (pcs_w s ! u))"
    and "returned s ! u + (if sem_draining s then 1 else sem_released (pcs_w s ! u)) = rounds s"
    and "length (called s) = length (pcs_w s)" and "length (returned s) = length (pcs_w s)"
  using assms by (simp_all add: sem_thread_inv_def)

lemma sem_thread_inv_step:
  assumes st: "sem_step s e = Some s'" and pi: "sem_phase_inv s" and ti: "sem_thread_inv s"
    and va: "is_valid_w s \<and> 1 < thread_count_w s"
  shows "sem_thread_inv s'"
proof -
  from pi have ci: "sem_count_inv s"
    and ph: "sem_filling s \<or> sem_full s \<or> sem_crossing s \<or> sem_crossed s"
    by (simp_all add: sem_phase_inv_def)
  from ci have le: "length (pcs_w s) \<le> unat (thread_count_w s)"
    by (simp add: sem_count_inv_def)
  have "sem_count_inv s'" using st ci by (rule sem_count_inv_step)
  then have le': "length (pcs_w s') \<le> unat (thread_count_w s')"
    by (simp add: sem_count_inv_def)
  note mv = sem_phase_move [OF st ci ph]
  have keep: "sem_draining s' = sem_draining s" if "\<not> sem_opens e" "\<not> sem_shuts e"
    using mv that sem_phase_exclusive [OF le] sem_phase_exclusive [OF le'] by auto
  show ?thesis
  proof (cases e)
    case (WCall t)
    with st va have t: "t < length (pcs_w s)" "pcs_w s ! t = Outside"
      and s': "s' = note_call t (s\<lparr>pcs_w := (pcs_w s)[t := Counting T1]\<rparr>)"
      by (simp_all add: sem_step_simps)
    have pos: "0 < count_list (pcs_w s) Outside" using t by (rule count_list_pos)
    have nd: "\<not> sem_draining s" using sem_draining_inside [OF _ le] pos by auto
    with keep WCall have nd': "\<not> sem_draining s'" by simp
    note len = sem_thread_invD(3,4) [OF ti t(1)]
    show ?thesis
    proof (rule sem_thread_invI)
      fix u assume "u < length (pcs_w s')"
      then have u: "u < length (pcs_w s)" using s' by (simp add: note_defs)
      from sem_thread_invD(1,2) [OF ti u] t s' len u nd nd'
      show "called s' ! u =
              rounds s' + (if sem_draining s' then 0 else sem_pending (pcs_w s' ! u)) \<and>
            returned s' ! u + (if sem_draining s' then 1 else sem_released (pcs_w s' ! u)) =
              rounds s'"
        by (cases "u = t") (simp_all add: sem_pending_def sem_released_def note_defs)
    qed (use s' len in \<open>simp_all add: note_defs\<close>)
  next
    case (WCount t h)
    show ?thesis
    proof (cases h)
      case T1
      with WCount st have t: "t < length (pcs_w s)" "pcs_w s ! t = Counting T1"
        and s': "s' = s\<lparr>wait_count_w := wait_count_w s + 1,
             pcs_w := (pcs_w s)[t := (if wait_count_w s + 1 = thread_count_w s
                                      then Releasing T1 else Waiting T1)]\<rparr>"
        by (simp_all add: sem_step_simps)
      have pos: "0 < count_list (pcs_w s) (Counting T1)" using t by (rule count_list_pos)
      have nd: "\<not> sem_draining s" using sem_draining_first_empty [OF _ le] pos by auto
      with keep WCount T1 have nd': "\<not> sem_draining s'" by simp
      show ?thesis
      proof (rule sem_thread_invI)
        fix u assume "u < length (pcs_w s')"
        then have u: "u < length (pcs_w s)" using s' by simp
        from sem_thread_invD(1,2) [OF ti u] t s' u nd nd'
        show "called s' ! u =
                rounds s' + (if sem_draining s' then 0 else sem_pending (pcs_w s' ! u)) \<and>
              returned s' ! u + (if sem_draining s' then 1 else sem_released (pcs_w s' ! u)) =
                rounds s'"
          by (cases "u = t") (simp_all add: sem_pending_def sem_released_def)
      qed (use s' sem_thread_invD(3,4) [OF ti t(1)] in simp_all)
    next
      case T2
      with WCount st have t: "t < length (pcs_w s)" "pcs_w s ! t = Counting T2"
        and s': "s' = s\<lparr>wait_count_w := wait_count_w s - 1,
             pcs_w := (pcs_w s)[t := (if wait_count_w s - 1 = 0
                                      then Releasing T2 else Waiting T2)]\<rparr>"
        by (simp_all add: sem_step_simps)
      have pos: "0 < count_list (pcs_w s) (Counting T2)" using t by (rule count_list_pos)
      have "\<not> (sem_filling s \<or> sem_full s)"
        using sem_filling_second_empty [OF _ le] pos by auto
      with mv WCount T2 have d: "sem_draining s" "sem_draining s'" by simp_all
      show ?thesis
      proof (rule sem_thread_invI)
        fix u assume "u < length (pcs_w s')"
        then have u: "u < length (pcs_w s)" using s' by simp
        from sem_thread_invD(1,2) [OF ti u] s' d
        show "called s' ! u =
                rounds s' + (if sem_draining s' then 0 else sem_pending (pcs_w s' ! u)) \<and>
              returned s' ! u + (if sem_draining s' then 1 else sem_released (pcs_w s' ! u)) =
                rounds s'"
          by simp
      qed (use s' sem_thread_invD(3,4) [OF ti t(1)] in simp_all)
    qed
  next
    case (WPass t h)
    show ?thesis
    proof (cases h)
      case T1
      with WPass st have t: "t < length (pcs_w s)" "pcs_w s ! t = Waiting T1"
        and p: "0 < turnstile1 s"
        and s': "s' = s\<lparr>turnstile1 := turnstile1 s - 1, pcs_w := (pcs_w s)[t := Counting T2]\<rparr>"
        by (simp_all add: sem_step_simps)
      have "\<not> (sem_filling s \<or> sem_full s)"
        using sem_filling_second_empty [OF _ le] p by auto
      with mv WPass T1 have d: "sem_draining s" "sem_draining s'" by simp_all
      show ?thesis
      proof (rule sem_thread_invI)
        fix u assume "u < length (pcs_w s')"
        then have u: "u < length (pcs_w s)" using s' by simp
        from sem_thread_invD(1,2) [OF ti u] s' d
        show "called s' ! u =
                rounds s' + (if sem_draining s' then 0 else sem_pending (pcs_w s' ! u)) \<and>
              returned s' ! u + (if sem_draining s' then 1 else sem_released (pcs_w s' ! u)) =
                rounds s'"
          by simp
      qed (use s' sem_thread_invD(3,4) [OF ti t(1)] in simp_all)
    next
      case T2
      with WPass st have t: "t < length (pcs_w s)" "pcs_w s ! t = Waiting T2"
        and p: "0 < turnstile2 s"
        and s': "s' = note_return t (s\<lparr>turnstile2 := turnstile2 s - 1,
                   pcs_w := (pcs_w s)[t := Outside]\<rparr>)"
        by (simp_all add: sem_step_simps)
      have nd: "\<not> sem_draining s" using sem_draining_second_shut [of s] p by auto
      with keep WPass T2 have nd': "\<not> sem_draining s'" by simp
      note len = sem_thread_invD(3,4) [OF ti t(1)]
      show ?thesis
      proof (rule sem_thread_invI)
        fix u assume "u < length (pcs_w s')"
        then have u: "u < length (pcs_w s)" using s' by (simp add: note_defs)
        from sem_thread_invD(1,2) [OF ti u] t s' len u nd nd'
        show "called s' ! u =
                rounds s' + (if sem_draining s' then 0 else sem_pending (pcs_w s' ! u)) \<and>
              returned s' ! u + (if sem_draining s' then 1 else sem_released (pcs_w s' ! u)) =
                rounds s'"
          by (cases "u = t") (simp_all add: sem_pending_def sem_released_def note_defs)
      qed (use s' len in \<open>simp_all add: note_defs\<close>)
    qed
  next
    case (WRelease t h)
    show ?thesis
    proof (cases h)
      case T1
      with WRelease st have t: "t < length (pcs_w s)" "pcs_w s ! t = Releasing T1"
        and s': "s' = s\<lparr>turnstile1 := turnstile1 s + unat (thread_count_w s - 1),
             rounds := Suc (rounds s), pcs_w := (pcs_w s)[t := Counting T2]\<rparr>"
        by (simp_all add: sem_step_simps)
      from mv WRelease T1 have f: "sem_full s" and d': "sem_draining s'"
        by (simp_all add: sem_draining_def)
      have nd: "\<not> sem_draining s" using sem_phase_exclusive [OF le] f by simp
      show ?thesis
      proof (rule sem_thread_invI)
        fix u assume "u < length (pcs_w s')"
        then have u: "u < length (pcs_w s)" using s' by simp
        from sem_thread_invD(1,2) [OF ti u] sem_full_thread [OF f le u] s' nd d'
        show "called s' ! u =
                rounds s' + (if sem_draining s' then 0 else sem_pending (pcs_w s' ! u)) \<and>
              returned s' ! u + (if sem_draining s' then 1 else sem_released (pcs_w s' ! u)) =
                rounds s'"
          by simp
      qed (use s' sem_thread_invD(3,4) [OF ti t(1)] in simp_all)
    next
      case T2
      with WRelease st have t: "t < length (pcs_w s)" "pcs_w s ! t = Releasing T2"
        and s': "s' = note_return t (s\<lparr>turnstile2 := turnstile2 s + unat (thread_count_w s - 1),
             pcs_w := (pcs_w s)[t := Outside]\<rparr>)"
        by (simp_all add: sem_step_simps)
      from mv WRelease T2 have w: "sem_crossed s" and f': "sem_filling s'"
        by simp_all
      have d: "sem_draining s" using w by (simp add: sem_draining_def)
      have nd': "\<not> sem_draining s'" using sem_phase_exclusive [OF le'] f' by simp
      note len = sem_thread_invD(3,4) [OF ti t(1)]
      show ?thesis
      proof (rule sem_thread_invI)
        fix u assume "u < length (pcs_w s')"
        then have u: "u < length (pcs_w s)" using s' by (simp add: note_defs)
        show "called s' ! u =
                rounds s' + (if sem_draining s' then 0 else sem_pending (pcs_w s' ! u)) \<and>
              returned s' ! u + (if sem_draining s' then 1 else sem_released (pcs_w s' ! u)) =
                rounds s'"
        proof (cases "u = t")
          case True
          with sem_thread_invD(1,2) [OF ti u] t s' len d nd' show ?thesis
            by (simp add: sem_pending_def sem_released_def note_defs)
        next
          case False
          have "pcs_w s ! u \<noteq> Releasing T2"
          proof
            assume "pcs_w s ! u = Releasing T2"
            from count_list_two [OF False u t(1) this t(2)] w show False
              by (simp add: sem_crossed_def)
          qed
          with w le u have "pcs_w s ! u = Waiting T2" by (rule sem_crossed_thread)
          with sem_thread_invD(1,2) [OF ti u] False t s' len u d nd' show ?thesis
            by (simp add: sem_pending_def sem_released_def note_defs)
        qed
      qed (use s' len in \<open>simp_all add: note_defs\<close>)
    qed
  next
    case WClose2
    with st have s': "s' = s\<lparr>closed2 := True, dpc_w := WClosing\<rparr>"
      by (simp add: sem_step_simps)
    from keep WClose2 have k: "sem_draining s' = sem_draining s" by simp
    show ?thesis
    proof (rule sem_thread_invI)
      fix u assume "u < length (pcs_w s')"
      then have u: "u < length (pcs_w s)" using s' by simp
      from sem_thread_invD(1,2) [OF ti u] s' k
      show "called s' ! u =
              rounds s' + (if sem_draining s' then 0 else sem_pending (pcs_w s' ! u)) \<and>
            returned s' ! u + (if sem_draining s' then 1 else sem_released (pcs_w s' ! u)) =
              rounds s'"
        by (cases "sem_draining s") simp_all
    qed (use s' ti in \<open>simp_all add: sem_thread_inv_def\<close>)
  next
    case WClose1
    with st have s': "s' = s\<lparr>closed1 := True, dpc_w := WDone\<rparr>"
      by (simp add: sem_step_simps)
    from keep WClose1 have k: "sem_draining s' = sem_draining s" by simp
    show ?thesis
    proof (rule sem_thread_invI)
      fix u assume "u < length (pcs_w s')"
      then have u: "u < length (pcs_w s)" using s' by simp
      from sem_thread_invD(1,2) [OF ti u] s' k
      show "called s' ! u =
              rounds s' + (if sem_draining s' then 0 else sem_pending (pcs_w s' ! u)) \<and>
            returned s' ! u + (if sem_draining s' then 1 else sem_released (pcs_w s' ! u)) =
              rounds s'"
        by (cases "sem_draining s") simp_all
    qed (use s' ti in \<open>simp_all add: sem_thread_inv_def\<close>)
  qed
qed

lemma sem_reach_thread:
  assumes "sem_run (Barrier_w n k) es = Some s" and "1 < n" and "k \<le> unat n"
  shows "sem_thread_inv s"
proof -
  let ?P = "\<lambda>s. sem_phase_inv s \<and> sem_thread_inv s \<and> is_valid_w s \<and> 1 < thread_count_w s"
  have "?P s"
  proof (rule sem_run_invariant [OF assms(1), where P = ?P])
    have "\<not> sem_draining (Barrier_w n k)"
      by (simp add: sem_draining_def sem_phase_defs Barrier_w_def)
    then show "?P (Barrier_w n k)"
      using assms(2,3) sem_init_phase [of k n] word_one_less [of n]
      by (simp add: sem_thread_inv_def Barrier_w_def sem_pending_def sem_released_def)
    show "?P b" if a: "?P a" and st: "sem_step a e = Some b" for a e b
      using a st sem_phase_inv_step [of a e b] sem_thread_inv_step [of a e b]
        sem_step_frame [of a e b] by simp
  qed
  then show ?thesis by simp
qed

lemma sem_no_early_return:
  assumes "sem_run (Barrier_w n k) es = Some s" and "1 < n" and "k \<le> unat n"
    and "t < length (pcs_w s)" and "u < length (pcs_w s)"
  shows "returned s ! t \<le> rounds s \<and> rounds s \<le> called s ! u"
  using sem_thread_invD(2) [OF sem_reach_thread [OF assms(1-3)] assms(4)]
    sem_thread_invD(1) [OF sem_reach_thread [OF assms(1-3)] assms(5)]
  by simp

section \<open>Native barrier: invariants\<close>

subsection \<open>The release\<close>


lemma release_length [simp]: "length (pthread_barrier_release ps) = length ps"
  by (simp add: pthread_barrier_release_def)

subsection \<open>One step, event by event\<close>












subsection \<open>The count of threads inside\<close>




subsection \<open>The destructor\<close>





subsection \<open>Barriers that block nobody\<close>





section \<open>The claims\<close>

text \<open>
  C1: no call of \<^verbatim>\<open>Wait()\<close> returns before all threads of its round have called it.
  The condition-variable version calls \<^verbatim>\<open>pthread_cond_wait\<close> once, with no test
  around it (line 184). On a barrier for two threads, thread 0 calls \<^verbatim>\<open>Wait()\<close>,
  blocks, is woken spuriously, and returns: its call has returned, thread 1 has never
  called, and no round is complete.
\<close>

theorem C1_early_return_after_spurious_wakeup:
  "cv_run (Barrier_cv 2 2) [Call 0, Lock 0, Arrive 0, Spurious 0, Reacquire 0, Exit 0] =
     Some \<lparr>called = [1, 0], returned = [1, 0], rounds = 0,
            thread_count = 2, wait_count = 1, exit_count = 0, is_valid = True,
            mutex = None, pcs = [Idle, Idle], dpc = DNotStarted, destroyed = False\<rparr>"
  by code_simp






text \<open>
  C5: a barrier is valid exactly when it was made for more than 0 threads. The
  constructors on semaphores and on condition variables set \<^verbatim>\<open>is_valid_\<close> so. The
  native version takes the result of \<^verbatim>\<open>pthread_barrier_init\<close> (line 119), and on
  Linux that is \<^verbatim>\<open>EINVAL\<close> for a count of 2147483647: the barrier made for that many
  threads, on a host with all its resources, is invalid.
\<close>

theorem C5_native_init_failure_counterexample:
  "\<not> (is_valid_n (Barrier_n False 2147483647 4) \<longleftrightarrow> (0::uint32) < 2147483647)"
  by (simp add: Barrier_n_def pthread_barrier_init_def BARRIER_IN_THRESHOLD_def EINVAL_def)

text \<open>
  C5, amended.
  \<^item> The constructors on semaphores and on condition variables make the barrier valid
    exactly for a positive thread count.
  \<^item> The native constructor makes it valid exactly when \<^verbatim>\<open>pthread_barrier_init\<close>
    returned 0: that is when the thread count is positive and below
    \<^verbatim>\<open>BARRIER_IN_THRESHOLD\<close>, 2147483647, and the host does not lack the resources. So a
    valid barrier has a positive thread count on this version too, and the converse does
    not hold.
  \<^item> \<^verbatim>\<open>IsValid()\<close> reads the field and changes nothing.
\<close>

theorem C5_is_valid:
  "is_valid (Barrier_cv n k) = (0 < n) \<and>
   is_valid_w (Barrier_w n k) = (0 < n) \<and>
   is_valid_n (Barrier_n exhausted n k) = (pthread_barrier_init exhausted n = 0) \<and>
   is_valid_n (Barrier_n exhausted n k) =
     (0 < n \<and> n < BARRIER_IN_THRESHOLD \<and> \<not> exhausted) \<and>
   (is_valid_n (Barrier_n exhausted n k) \<longrightarrow> 0 < n) \<and>
   IsValid_cv s = is_valid s \<and> IsValid_w w = is_valid_w w \<and> IsValid_n b = is_valid_n b"
proof -
  have v: "is_valid_n (Barrier_n exhausted n k) = (pthread_barrier_init exhausted n = 0)"
    by (simp add: Barrier_n_def)
  have i: "(pthread_barrier_init exhausted n = 0) =
      (0 < n \<and> n < BARRIER_IN_THRESHOLD \<and> \<not> exhausted)"
    by (simp add: pthread_barrier_init_def EINVAL_def EAGAIN_def word_greater_zero_iff
        flip: not_le)
  have "is_valid (Barrier_cv n k) = (0 < n)" by (simp add: Barrier_cv_def)
  moreover have "is_valid_w (Barrier_w n k) = (0 < n)" by (simp add: Barrier_w_def)
  moreover have "IsValid_cv s = is_valid s" by (simp add: IsValid_cv_def)
  moreover have "IsValid_w w = is_valid_w w" by (simp add: IsValid_w_def)
  moreover have "IsValid_n b = is_valid_n b" by (simp add: IsValid_n_def)
  ultimately show ?thesis using v i by simp
qed

theorem C5_is_valid_witness:
  "is_valid (Barrier_cv 4 4) \<and> is_valid_w (Barrier_w 4 4) \<and>
   is_valid_n (Barrier_n False 4 4) \<and> (0::uint32) < 4 \<and>
   \<not> is_valid (Barrier_cv 0 4) \<and> \<not> is_valid_w (Barrier_w 0 4) \<and>
   \<not> is_valid_n (Barrier_n False 0 4) \<and>
   \<not> is_valid_n (Barrier_n True 4 4) \<and>
   \<not> is_valid_n (Barrier_n False 4294967295 4) \<and>
   is_valid_n (Barrier_n False 2147483646 4)"
proof -
  have cv: "is_valid (Barrier_cv 4 4)" "\<not> is_valid (Barrier_cv 0 4)"
    using C5_is_valid [of 4 4, THEN conjunct1] C5_is_valid [of 0 4, THEN conjunct1]
    by simp_all
  have w: "is_valid_w (Barrier_w 4 4)" "\<not> is_valid_w (Barrier_w 0 4)"
    using C5_is_valid [of 4 4, THEN conjunct2, THEN conjunct1]
      C5_is_valid [of 0 4, THEN conjunct2, THEN conjunct1]
    by simp_all
  have v4: "is_valid_n (Barrier_n False 4 4)"
    using C5_is_valid [of 4 4 False, THEN conjunct2, THEN conjunct2, THEN conjunct2,
        THEN conjunct1]
    by (simp add: BARRIER_IN_THRESHOLD_def)
  have p: "(0::uint32) < 4"
    using C5_is_valid [of 4 4 False, THEN conjunct2, THEN conjunct2, THEN conjunct2,
        THEN conjunct2, THEN conjunct1] v4
    by (rule mp)
  have v0: "\<not> is_valid_n (Barrier_n False 0 4)"
    using C5_is_valid [of 0 4 False, THEN conjunct2, THEN conjunct2, THEN conjunct2,
        THEN conjunct1]
    by simp
  have vx: "\<not> is_valid_n (Barrier_n True 4 4)"
    using C5_is_valid [of 4 4 True, THEN conjunct2, THEN conjunct2, THEN conjunct2,
        THEN conjunct1]
    by simp
  have vmax: "\<not> is_valid_n (Barrier_n False 4294967295 4)"
    using C5_is_valid [of 4294967295 4 False, THEN conjunct2, THEN conjunct2,
        THEN conjunct2, THEN conjunct1]
    by (simp add: BARRIER_IN_THRESHOLD_def)
  have vtop: "is_valid_n (Barrier_n False 2147483646 4)"
    using C5_is_valid [of 2147483646 4 False, THEN conjunct2, THEN conjunct2,
        THEN conjunct2, THEN conjunct1]
    by (simp add: BARRIER_IN_THRESHOLD_def)
  from cv w v4 p v0 vx vmax vtop show ?thesis by simp
qed
text \<open>
  C6: on condition variables, every arrival is counted while the arriving thread owns the
  mutex, and nothing else changes the counter; the arrival that makes the counter equal to
  the thread count resets it to 0, sets the exit count to the thread count plus 1 and
  broadcasts, which wakes every blocked thread; a call returns only through the decrement
  of the exit count, made while the thread owns the mutex, and the decrement that reaches 0
  wakes a destructor blocked on the exit condition; the destructor, for more than one
  thread, takes one from the same exit count and blocks unless it reached 0.
\<close>

theorem C6_condvar_protocol:
  assumes "cv_run (Barrier_cv n k) es = Some s"
  shows
   "(cv_step s (Arrive t) = Some s' \<longrightarrow>
       mutex s = Some (Thr t) \<and>
       (if wait_count s + 1 = n
        then wait_count s' = 0 \<and> exit_count s' = n + 1 \<and> mutex s' = Some (Thr t) \<and>
             pcs s' = pthread_cond_broadcast ((pcs s)[t := Exiting]) \<and>
             pcs s' ! t = Exiting \<and>
             (\<forall>u < length (pcs s). pcs s ! u = Blocked \<longrightarrow> pcs s' ! u = Woken)
        else wait_count s' = wait_count s + 1 \<and> mutex s' = None \<and>
             pcs s' = (pcs s)[t := Blocked])) \<and>
    (cv_step s (Exit t) = Some s' \<longrightarrow>
       mutex s = Some (Thr t) \<and> exit_count s' = exit_count s - 1 \<and> mutex s' = None \<and>
       dpc s' = (if exit_count s' = 0 \<and> dpc s = DBlocked then DWoken else dpc s)) \<and>
    (cv_step s e = Some s' \<and> wait_count s' \<noteq> wait_count s \<longrightarrow> (\<exists>u. e = Arrive u)) \<and>
    (cv_step s e = Some s' \<and> returned s' \<noteq> returned s \<and> 0 < n \<longrightarrow> (\<exists>u. e = Exit u)) \<and>
    (cv_step s DCheck = Some s' \<and> 1 < n \<longrightarrow>
       exit_count s' = exit_count s - 1 \<and>
       dpc s' = (if exit_count s' = 0 then DUnlocking else DBlocked))"
proof -
  have tc: "thread_count s = n" and v: "is_valid s = (0 < n)"
    using cv_run_frame [OF assms] by (simp_all add: Barrier_cv_def)
  have m: "cv_mutex_inv s" using assms by (rule cv_reach_mutex)
  have arrive: "mutex s = Some (Thr t)" if "cv_step s (Arrive t) = Some s'"
    using that m by (intro cv_holder) (simp_all add: cv_step_simps)
  have exit: "mutex s = Some (Thr t)" if "cv_step s (Exit t) = Some s'"
    using that m by (intro cv_holder) (simp_all add: cv_step_simps)
  have 1: "cv_step s (Arrive t) = Some s' \<longrightarrow>
       mutex s = Some (Thr t) \<and>
       (if wait_count s + 1 = n
        then wait_count s' = 0 \<and> exit_count s' = n + 1 \<and> mutex s' = Some (Thr t) \<and>
             pcs s' = pthread_cond_broadcast ((pcs s)[t := Exiting]) \<and>
             pcs s' ! t = Exiting \<and>
             (\<forall>u < length (pcs s). pcs s ! u = Blocked \<longrightarrow> pcs s' ! u = Woken)
        else wait_count s' = wait_count s + 1 \<and> mutex s' = None \<and>
             pcs s' = (pcs s)[t := Blocked])"
  proof
    assume st: "cv_step s (Arrive t) = Some s'"
    then have t: "t < length (pcs s)" "pcs s ! t = Arriving" by (simp_all add: cv_step_simps)
    have w: "\<forall>u < length (pcs s). pcs s ! u = Blocked \<longrightarrow>
               pthread_cond_broadcast ((pcs s)[t := Exiting]) ! u = Woken"
    proof (intro allI impI)
      fix u assume u: "u < length (pcs s)" "pcs s ! u = Blocked"
      with t have "u \<noteq> t" by auto
      with u show "pthread_cond_broadcast ((pcs s)[t := Exiting]) ! u = Woken"
        by (simp add: broadcast_nth)
    qed
    have x: "pthread_cond_broadcast ((pcs s)[t := Exiting]) ! t = Exiting"
      using t by (simp add: broadcast_nth)
    from st tc w x arrive [OF st] show "mutex s = Some (Thr t) \<and>
       (if wait_count s + 1 = n
        then wait_count s' = 0 \<and> exit_count s' = n + 1 \<and> mutex s' = Some (Thr t) \<and>
             pcs s' = pthread_cond_broadcast ((pcs s)[t := Exiting]) \<and>
             pcs s' ! t = Exiting \<and>
             (\<forall>u < length (pcs s). pcs s ! u = Blocked \<longrightarrow> pcs s' ! u = Woken)
        else wait_count s' = wait_count s + 1 \<and> mutex s' = None \<and>
             pcs s' = (pcs s)[t := Blocked])"
      by (simp add: cv_step_simps note_defs)
  qed
  have 2: "cv_step s (Exit t) = Some s' \<longrightarrow>
       mutex s = Some (Thr t) \<and> exit_count s' = exit_count s - 1 \<and> mutex s' = None \<and>
       dpc s' = (if exit_count s' = 0 \<and> dpc s = DBlocked then DWoken else dpc s)"
    using exit
    by (auto simp: cv_step_simps note_defs pthread_cond_broadcast_exit_def)
  have 3: "cv_step s e = Some s' \<and> wait_count s' \<noteq> wait_count s \<longrightarrow> (\<exists>u. e = Arrive u)"
    by (cases e) (auto simp: cv_step_simps note_defs split: if_splits)
  have 4: "cv_step s e = Some s' \<and> returned s' \<noteq> returned s \<and> 0 < n \<longrightarrow> (\<exists>u. e = Exit u)"
    using v by (cases e) (auto simp: cv_step_simps note_defs split: if_splits)
  have 5: "cv_step s DCheck = Some s' \<and> 1 < n \<longrightarrow>
       exit_count s' = exit_count s - 1 \<and>
       dpc s' = (if exit_count s' = 0 then DUnlocking else DBlocked)"
    using tc by (auto simp: cv_step_simps)
  from 1 2 3 4 5 show ?thesis by (intro conjI)
qed

theorem C6_condvar_protocol_witness:
  "cv_run (Barrier_cv 2 2) [Call 0, Lock 0, Arrive 0, Call 1, Lock 1] =
     Some \<lparr>called = [1, 1], returned = [0, 0], rounds = 0, thread_count = 2,
         wait_count = 1, exit_count = 1, is_valid = True, mutex = Some (Thr 1),
         pcs = [Blocked, Arriving], dpc = DNotStarted, destroyed = False\<rparr> \<and>
   cv_step \<lparr>called = [1, 1], returned = [0, 0], rounds = 0, thread_count = 2,
         wait_count = 1, exit_count = 1, is_valid = True, mutex = Some (Thr 1),
         pcs = [Blocked, Arriving], dpc = DNotStarted, destroyed = False\<rparr> (Arrive 1) =
     Some \<lparr>called = [1, 1], returned = [0, 0], rounds = 1, thread_count = 2,
         wait_count = 0, exit_count = 3, is_valid = True, mutex = Some (Thr 1),
         pcs = [Woken, Exiting], dpc = DNotStarted, destroyed = False\<rparr> \<and>
   cv_run (Barrier_cv 2 2)
     [Call 0, Lock 0, Arrive 0, Call 1, Lock 1, Arrive 1, Exit 1, DLock, DCheck, Reacquire 0] =
     Some \<lparr>called = [1, 1], returned = [0, 1], rounds = 1, thread_count = 2,
         wait_count = 0, exit_count = 1, is_valid = True, mutex = Some (Thr 0),
         pcs = [Exiting, Idle], dpc = DBlocked, destroyed = False\<rparr> \<and>
   cv_step \<lparr>called = [1, 1], returned = [0, 1], rounds = 1, thread_count = 2,
         wait_count = 0, exit_count = 1, is_valid = True, mutex = Some (Thr 0),
         pcs = [Exiting, Idle], dpc = DBlocked, destroyed = False\<rparr> (Exit 0) =
     Some \<lparr>called = [1, 1], returned = [1, 1], rounds = 1, thread_count = 2,
         wait_count = 0, exit_count = 0, is_valid = True, mutex = None,
         pcs = [Idle, Idle], dpc = DWoken, destroyed = False\<rparr>"
proof -
  let ?S1 = "\<lparr>called = [1, 1], returned = [0, 0], rounds = 0, thread_count = 2,
         wait_count = 1, exit_count = 1, is_valid = True, mutex = Some (Thr 1),
         pcs = [Blocked, Arriving], dpc = DNotStarted, destroyed = False\<rparr>"
  let ?S2 = "\<lparr>called = [1, 1], returned = [0, 0], rounds = 1, thread_count = 2,
         wait_count = 0, exit_count = 3, is_valid = True, mutex = Some (Thr 1),
         pcs = [Woken, Exiting], dpc = DNotStarted, destroyed = False\<rparr>"
  let ?S3 = "\<lparr>called = [1, 1], returned = [0, 1], rounds = 1, thread_count = 2,
         wait_count = 0, exit_count = 1, is_valid = True, mutex = Some (Thr 0),
         pcs = [Exiting, Idle], dpc = DBlocked, destroyed = False\<rparr>"
  let ?S4 = "\<lparr>called = [1, 1], returned = [1, 1], rounds = 1, thread_count = 2,
         wait_count = 0, exit_count = 0, is_valid = True, mutex = None,
         pcs = [Idle, Idle], dpc = DWoken, destroyed = False\<rparr>"
  have r1: "cv_run (Barrier_cv 2 2) [Call 0, Lock 0, Arrive 0, Call 1, Lock 1] = Some ?S1"
    by code_simp
  have s1: "cv_step ?S1 (Arrive 1) = Some ?S2"
    by code_simp
  have r3: "cv_run (Barrier_cv 2 2)
     [Call 0, Lock 0, Arrive 0, Call 1, Lock 1, Arrive 1, Exit 1, DLock, DCheck, Reacquire 0] =
     Some ?S3"
    by code_simp
  have s3: "cv_step ?S3 (Exit 0) = Some ?S4"
    by code_simp
  have "mutex ?S1 = Some (Thr 1) \<and> wait_count ?S2 = 0 \<and> exit_count ?S2 = 2 + 1 \<and>
        pcs ?S2 ! 0 = Woken"
    using C6_condvar_protocol [OF r1, where t = 1 and s' = ?S2, THEN conjunct1, THEN mp, OF s1]
    by (simp add: pthread_cond_broadcast_def)
  moreover have "mutex ?S3 = Some (Thr 0) \<and> exit_count ?S4 = exit_count ?S3 - 1 \<and>
        dpc ?S4 = DWoken"
    using C6_condvar_protocol [OF r3, where t = 0 and s' = ?S4, THEN conjunct2, THEN conjunct1,
        THEN mp, OF s3]
    by simp
  ultimately show ?thesis using r1 s1 r3 s3 by simp
qed



text \<open>
  C8: the arrival counter is reset to 0 at the transition at which it reaches the thread
  count. On semaphores it is not: for two threads, thread 0 has counted itself in, thread
  1 does so and finds the counter equal to the thread count; the counter is left at 2
  (lines 98-100). It comes down again one by one, at the second call of
  \<^verbatim>\<open>WaitInternal\<close>.
\<close>

theorem C8_semaphore_counter_not_reset_counterexample:
  "sem_run (Barrier_w 2 2) [WCall 0, WCount 0 T1, WCall 1] =
     Some \<lparr>called = [1, 1], returned = [0, 0], rounds = 0, thread_count_w = 2,
            wait_count_w = 1, is_valid_w = True, turnstile1 = 0, turnstile2 = 0,
            closed1 = False, closed2 = False, pcs_w = [Waiting T1, Counting T1],
            dpc_w = WNotStarted\<rparr> \<and>
   sem_step \<lparr>called = [1, 1], returned = [0, 0], rounds = 0, thread_count_w = 2,
            wait_count_w = 1, is_valid_w = True, turnstile1 = 0, turnstile2 = 0,
            closed1 = False, closed2 = False, pcs_w = [Waiting T1, Counting T1],
            dpc_w = WNotStarted\<rparr> (WCount 1 T1) =
     Some \<lparr>called = [1, 1], returned = [0, 0], rounds = 0, thread_count_w = 2,
            wait_count_w = 2, is_valid_w = True, turnstile1 = 0, turnstile2 = 0,
            closed1 = False, closed2 = False, pcs_w = [Waiting T1, Releasing T1],
            dpc_w = WNotStarted\<rparr>"
  by code_simp

text \<open>
  C8, amended. On condition variables the arrival counter never exceeds the thread count;
  an arrival sets it to 0 if it makes it equal to the thread count, and adds 1 otherwise,
  in one step; the counter goes down at no other step. On semaphores, with no more threads
  than the thread count, the counter never exceeds the thread count; it changes only at
  line 98, by 1 up in the first call of \<^verbatim>\<open>WaitInternal\<close> and by 1 down, from a
  positive value, in the second.
\<close>

theorem C8_arrival_counter:
  "(cv_run (Barrier_cv n k) es = Some s \<longrightarrow>
      wait_count s \<le> n \<and>
      (cv_step s (Arrive t) = Some s' \<longrightarrow>
         wait_count s' = (if wait_count s + 1 = n then 0 else wait_count s + 1)) \<and>
      (cv_step s e = Some s' \<and> wait_count s' < wait_count s \<longrightarrow>
         (\<exists>u. e = Arrive u) \<and> wait_count s + 1 = n \<and> wait_count s' = 0)) \<and>
   (sem_run (Barrier_w n k) fs = Some w \<and> k \<le> unat n \<longrightarrow>
      wait_count_w w \<le> n \<and>
      (sem_step w (WCount t T1) = Some w' \<longrightarrow> wait_count_w w' = wait_count_w w + 1) \<and>
      (sem_step w (WCount t T2) = Some w' \<longrightarrow>
         0 < wait_count_w w \<and> wait_count_w w' = wait_count_w w - 1) \<and>
      (sem_step w f = Some w' \<and> wait_count_w w' \<noteq> wait_count_w w \<longrightarrow>
         (\<exists>u h. f = WCount u h)))"
proof (intro conjI impI)
  assume r: "cv_run (Barrier_cv n k) es = Some s"
  then have b: "cv_bound_inv s" by (rule cv_reach_bound)
  have tc: "thread_count s = n" using cv_run_frame [OF r] by (simp add: Barrier_cv_def)
  from b tc show "wait_count s \<le> n"
    by (auto simp: cv_bound_inv_def split: if_splits)
  show "wait_count s' = (if wait_count s + 1 = n then 0 else wait_count s + 1)"
    if "cv_step s (Arrive t) = Some s'"
    using that tc by (auto simp: cv_step_simps note_defs)
  show "\<exists>u. e = Arrive u" "wait_count s + 1 = n" "wait_count s' = 0"
    if "cv_step s e = Some s' \<and> wait_count s' < wait_count s"
    using cv_counter_drop [OF b, of e s'] that tc by simp_all
next
  assume r: "sem_run (Barrier_w n k) fs = Some w \<and> k \<le> unat n"
  then have "sem_phase_inv w" by (intro sem_reach_phase [of n k fs]) simp_all
  then have c: "sem_count_inv w" by (simp add: sem_phase_inv_def)
  have tc: "thread_count_w w = n" using r sem_run_frame [of "Barrier_w n k" fs w]
    by (simp add: Barrier_w_def)
  from sem_counter_bound [OF c] tc show "wait_count_w w \<le> n"
    by (simp add: word_le_nat_alt)
  show "wait_count_w w' = wait_count_w w + 1" if "sem_step w (WCount t T1) = Some w'"
    using that by (simp add: sem_step_simps)
  show "0 < wait_count_w w" "wait_count_w w' = wait_count_w w - 1"
    if st: "sem_step w (WCount t T2) = Some w'"
  proof -
    from st have t: "t < length (pcs_w w)" "pcs_w w ! t = Counting T2"
      by (simp_all add: sem_step_simps)
    have "0 < count_list (pcs_w w) (Counting T2)" using t by (rule count_list_pos)
    then have "0 < unat (wait_count_w w)"
      using sem_counter_bound [OF c] by (simp add: counted_def)
    then show "0 < wait_count_w w" by (simp add: word_less_nat_alt)
    from st show "wait_count_w w' = wait_count_w w - 1" by (simp add: sem_step_simps)
  qed
  show "\<exists>u h. f = WCount u h"
    if "sem_step w f = Some w' \<and> wait_count_w w' \<noteq> wait_count_w w"
    using that sem_counter_change [of w f w'] by simp
qed

theorem C8_arrival_counter_witness:
  "cv_run (Barrier_cv 2 2) [Call 0, Lock 0, Arrive 0, Call 1, Lock 1] =
     Some \<lparr>called = [1, 1], returned = [0, 0], rounds = 0, thread_count = 2,
         wait_count = 1, exit_count = 1, is_valid = True, mutex = Some (Thr 1),
         pcs = [Blocked, Arriving], dpc = DNotStarted, destroyed = False\<rparr> \<and>
   cv_step \<lparr>called = [1, 1], returned = [0, 0], rounds = 0, thread_count = 2,
         wait_count = 1, exit_count = 1, is_valid = True, mutex = Some (Thr 1),
         pcs = [Blocked, Arriving], dpc = DNotStarted, destroyed = False\<rparr> (Arrive 1) =
     Some \<lparr>called = [1, 1], returned = [0, 0], rounds = 1, thread_count = 2,
         wait_count = 0, exit_count = 3, is_valid = True, mutex = Some (Thr 1),
         pcs = [Woken, Exiting], dpc = DNotStarted, destroyed = False\<rparr> \<and>
   sem_run (Barrier_w 2 2) [WCall 0, WCount 0 T1, WCall 1, WCount 1 T1, WRelease 1 T1] =
     Some \<lparr>called = [1, 1], returned = [0, 0], rounds = 1, thread_count_w = 2,
         wait_count_w = 2, is_valid_w = True, turnstile1 = 1, turnstile2 = 0,
         closed1 = False, closed2 = False, pcs_w = [Waiting T1, Counting T2],
         dpc_w = WNotStarted\<rparr> \<and>
   (2::nat) \<le> unat (2::uint32) \<and>
   sem_step \<lparr>called = [1, 1], returned = [0, 0], rounds = 1, thread_count_w = 2,
         wait_count_w = 2, is_valid_w = True, turnstile1 = 1, turnstile2 = 0,
         closed1 = False, closed2 = False, pcs_w = [Waiting T1, Counting T2],
         dpc_w = WNotStarted\<rparr> (WCount 1 T2) =
     Some \<lparr>called = [1, 1], returned = [0, 0], rounds = 1, thread_count_w = 2,
         wait_count_w = 1, is_valid_w = True, turnstile1 = 1, turnstile2 = 0,
         closed1 = False, closed2 = False, pcs_w = [Waiting T1, Waiting T2],
         dpc_w = WNotStarted\<rparr>"
proof -
  let ?S1 = "\<lparr>called = [1, 1], returned = [0, 0], rounds = 0, thread_count = 2,
         wait_count = 1, exit_count = 1, is_valid = True, mutex = Some (Thr 1),
         pcs = [Blocked, Arriving], dpc = DNotStarted, destroyed = False\<rparr>"
  let ?S2 = "\<lparr>called = [1, 1], returned = [0, 0], rounds = 1, thread_count = 2,
         wait_count = 0, exit_count = 3, is_valid = True, mutex = Some (Thr 1),
         pcs = [Woken, Exiting], dpc = DNotStarted, destroyed = False\<rparr>"
  let ?C = "\<lparr>called = [1, 1], returned = [0, 0], rounds = 1, thread_count_w = 2,
         wait_count_w = 2, is_valid_w = True, turnstile1 = 1, turnstile2 = 0,
         closed1 = False, closed2 = False, pcs_w = [Waiting T1, Counting T2],
         dpc_w = WNotStarted\<rparr>"
  let ?D = "\<lparr>called = [1, 1], returned = [0, 0], rounds = 1, thread_count_w = 2,
         wait_count_w = 1, is_valid_w = True, turnstile1 = 1, turnstile2 = 0,
         closed1 = False, closed2 = False, pcs_w = [Waiting T1, Waiting T2],
         dpc_w = WNotStarted\<rparr>"
  have r1: "cv_run (Barrier_cv 2 2) [Call 0, Lock 0, Arrive 0, Call 1, Lock 1] = Some ?S1"
    by code_simp
  have s1: "cv_step ?S1 (Arrive 1) = Some ?S2"
    by code_simp
  have rc: "sem_run (Barrier_w 2 2) [WCall 0, WCount 0 T1, WCall 1, WCount 1 T1, WRelease 1 T1] =
     Some ?C \<and> (2::nat) \<le> unat (2::uint32)"
    by code_simp
  have sc: "sem_step ?C (WCount 1 T2) = Some ?D"
    by code_simp
  note cv = C8_arrival_counter [where n = 2 and k = 2 and s = ?S1 and t = 1 and s' = ?S2,
      THEN conjunct1, THEN mp, OF r1]
  note sem = C8_arrival_counter [where n = 2 and k = 2 and w = ?C and t = 1 and w' = ?D,
      THEN conjunct2, THEN mp, OF rc]
  have "wait_count ?S1 \<le> 2" using cv by (rule conjunct1)
  moreover have "wait_count ?S2 = (if wait_count ?S1 + 1 = 2 then 0 else wait_count ?S1 + 1)"
    using s1 by (rule cv [THEN conjunct2, THEN conjunct1, THEN mp])
  moreover have "wait_count_w ?C \<le> 2" using sem by (rule conjunct1)
  moreover have "0 < wait_count_w ?C \<and> wait_count_w ?D = wait_count_w ?C - 1"
    using sc by (rule sem [THEN conjunct2, THEN conjunct2, THEN conjunct1, THEN mp])
  ultimately show ?thesis using r1 s1 rc sc by simp
qed

text \<open>
  C9: each completed round releases exactly as many threads as the thread count. On the
  condition-variable version, for two threads: thread 0 is woken spuriously from its first
  call and calls again; its second arrival is counted as the second of the round. The
  round is complete with both calls of thread 0 returned and none of thread 1.
\<close>

theorem C9_round_of_one_thread:
  "cv_run (Barrier_cv 2 2)
     [Call 0, Lock 0, Arrive 0, Spurious 0, Reacquire 0, Exit 0,
      Call 0, Lock 0, Arrive 0, Exit 0] =
     Some \<lparr>called = [2, 0], returned = [2, 0], rounds = 1,
            thread_count = 2, wait_count = 0, exit_count = 2, is_valid = True,
            mutex = None, pcs = [Idle, Idle], dpc = DNotStarted, destroyed = False\<rparr>"
  by code_simp

text \<open>
  C10: the destructor of a barrier on which no round has completed does not block on the
  exit handshake. On the condition-variable version, for two threads: thread 0 is woken
  spuriously and takes the exit count from 1 to 0 on its way out; the destructor then
  takes it below 0 and blocks on the exit condition, with no thread in \<^verbatim>\<open>Wait()\<close>
  and no round complete.
\<close>

theorem C10_destructor_blocks_with_no_round:
  "cv_run (Barrier_cv 2 2)
     [Call 0, Lock 0, Arrive 0, Spurious 0, Reacquire 0, Exit 0, DLock, DCheck] =
     Some \<lparr>called = [1, 0], returned = [1, 0], rounds = 0,
            thread_count = 2, wait_count = 1, exit_count = 4294967295, is_valid = True,
            mutex = None, pcs = [Idle, Idle], dpc = DBlocked, destroyed = False\<rparr>"
  by code_simp


end
